theory Spec2Isabelle
  imports Main "HOL-Library.Sublist"
begin

section \<open>Data model (agent-stream-event.model.ts, app.ts)\<close>

text \<open>
  The unions of string literals of the TypeScript sources are datatypes; an optional
  field (\<^verbatim>\<open>status?: ...\<close>) is an \<open>option\<close>, with \<open>None\<close> for \<^verbatim>\<open>undefined\<close>.
  The \<^verbatim>\<open>metadata\<close> field of an event is never read by the handlers and is left out.
\<close>

datatype MessageRole = User | Agent

datatype AgentResponseStatus =
  Queued | Thinking | Streaming | Completed | Celebrating | Error | Stopped

datatype AgentStreamEventType =
  ResponseStart | ResponseToken | ResponseStatus | ResponseEnd
  | ResponseError | ResponseStop | ResponseCelebration

text \<open>
  \<^verbatim>\<open>AgentStreamEvent\<close>. The interface declares \<^verbatim>\<open>responseId: string\<close>, but the store
  reads it with \<^verbatim>\<open>event.responseId ?? this.createMessageId()\<close>, so the field is modelled
  as optional, as the handler treats it.
\<close>

record AgentStreamEvent =
  ev_conversationId :: string
  ev_responseId :: "string option"
  ev_type :: AgentStreamEventType
  ev_status :: "AgentResponseStatus option"
  ev_token :: "string option"
  ev_tokens :: "string list option"
  ev_content :: "string option"

text \<open>\<^verbatim>\<open>ConversationMessage\<close>; the field \<^verbatim>\<open>id\<close> is called \<open>msg_id\<close> here.\<close>

record ConversationMessage =
  msg_id :: string
  role :: MessageRole
  content :: string
  createdAt :: nat
  responseId :: "string option"
  status :: "AgentResponseStatus option"
  tokens :: "string list option"
  isStreaming :: "bool option"
  finished :: "bool option"
  visible :: bool

text \<open>The commands the component hands to \<^verbatim>\<open>AiStreamService\<close> (\<^verbatim>\<open>AgentSocketCommand\<close>).\<close>

datatype AgentSocketCommand =
  UserMessage string string
  | StopResponse string "string option" "string option"
  | NewSession string

text \<open>
  The state of the \<^verbatim>\<open>App\<close> component that the handlers read and write: the two signals
  \<^verbatim>\<open>conversationId\<close> and \<^verbatim>\<open>messages\<close>, and \<open>sent\<close>, the log of the calls made to
  \<^verbatim>\<open>aiStream.sendUserPrompt\<close>, \<^verbatim>\<open>aiStream.stopResponse\<close> and \<^verbatim>\<open>aiStream.startNewSession\<close>
  in the order they were made.
\<close>

record App =
  conversationId :: string
  messages :: "ConversationMessage list"
  sent :: "AgentSocketCommand list"

section \<open>Array helpers\<close>

text \<open>
  \<^verbatim>\<open>Array.prototype.findIndex\<close>: the first index whose element satisfies the predicate;
  \<open>None\<close> stands for the result \<^verbatim>\<open>-1\<close>.
\<close>

fun findIndex :: "('a \<Rightarrow> bool) \<Rightarrow> 'a list \<Rightarrow> nat option" where
  "findIndex P [] = None"
| "findIndex P (x # xs) =
     (if P x then Some 0 else map_option Suc (findIndex P xs))"

text \<open>JavaScript truthiness of an optional boolean and of an optional string.\<close>

definition truthy :: "bool option \<Rightarrow> bool" where
  "truthy b = (b = Some True)"

definition nonEmptyId :: "string option \<Rightarrow> bool" where
  "nonEmptyId r = (case r of None \<Rightarrow> False | Some v \<Rightarrow> v \<noteq> [])"

section \<open>The conversation store (app.ts)\<close>

text \<open>
  \<^verbatim>\<open>releaseQueuedAgentResponses\<close>: the first hidden agent message is made visible when
  the last agent message before it is missing or finished.
\<close>

definition releaseQueuedAgentResponses ::
  "ConversationMessage list \<Rightarrow> ConversationMessage list" where
  "releaseQueuedAgentResponses msgs =
     (case findIndex (\<lambda>m. role m = Agent \<and> \<not> visible m) msgs of
        None \<Rightarrow> msgs
      | Some hiddenIndex \<Rightarrow>
          (case List.find (\<lambda>m. role m = Agent) (rev (take hiddenIndex msgs)) of
             None \<Rightarrow> msgs[hiddenIndex := (msgs ! hiddenIndex)\<lparr>visible := True\<rparr>]
           | Some previousAgent \<Rightarrow>
               if truthy (finished previousAgent)
               then msgs[hiddenIndex := (msgs ! hiddenIndex)\<lparr>visible := True\<rparr>]
               else msgs))"

text \<open>
  \<^verbatim>\<open>ensureAgentMessage\<close> pushes onto the array it is given and returns an index; the model
  returns both the array and the index. \<open>now\<close> is the value of \<^verbatim>\<open>Date.now()\<close> and \<open>fresh\<close>
  the value of \<^verbatim>\<open>createMessageId()\<close> at the call. The function never returns \<^verbatim>\<open>-1\<close>.
\<close>

definition initialStatus :: "AgentStreamEvent \<Rightarrow> AgentResponseStatus" where
  "initialStatus event =
     (case ev_status event of
        Some s \<Rightarrow> s
      | None \<Rightarrow> if ev_type event = ResponseToken then Streaming else Thinking)"

definition insertion ::
  "nat \<Rightarrow> string \<Rightarrow> ConversationMessage list \<Rightarrow> AgentStreamEvent \<Rightarrow> ConversationMessage" where
  "insertion now fresh msgs event =
     \<lparr> msg_id = (case ev_responseId event of Some r \<Rightarrow> r | None \<Rightarrow> fresh),
       role = Agent,
       content = (case ev_content event of Some c \<Rightarrow> c | None \<Rightarrow> []),
       createdAt = now,
       responseId = ev_responseId event,
       status = Some (initialStatus event),
       tokens = Some (case ev_tokens event of Some ts \<Rightarrow> ts | None \<Rightarrow> []),
       isStreaming =
         Some (initialStatus event = Thinking \<or> initialStatus event = Streaming),
       finished = Some False,
       visible = (\<not> list_ex (\<lambda>m. role m = Agent \<and> \<not> truthy (finished m)) msgs) \<rparr>"

definition ensureAgentMessage ::
  "nat \<Rightarrow> string \<Rightarrow> ConversationMessage list \<Rightarrow> AgentStreamEvent
     \<Rightarrow> ConversationMessage list \<times> nat" where
  "ensureAgentMessage now fresh msgs event =
     (case findIndex (\<lambda>m. responseId m = ev_responseId event \<and> role m = Agent) msgs of
        Some existingIndex \<Rightarrow> (msgs, existingIndex)
      | None \<Rightarrow> (msgs @ [insertion now fresh msgs event], length msgs))"

text \<open>
  The \<^verbatim>\<open>switch (event.type)\<close> of \<^verbatim>\<open>handleStreamEvent\<close>. It has no case for
  \<^verbatim>\<open>'response-celebration'\<close>: the message stays as it is.
\<close>

definition nextMessage :: "AgentStreamEvent \<Rightarrow> ConversationMessage \<Rightarrow> ConversationMessage" where
  "nextMessage event target =
     (case ev_type event of
        ResponseStart \<Rightarrow>
          target\<lparr> status := Some (case ev_status event of Some s \<Rightarrow> s | None \<Rightarrow> Thinking),
                  isStreaming := Some True \<rparr>
      | ResponseToken \<Rightarrow>
          target\<lparr> status := Some Streaming,
                  isStreaming := Some True,
                  tokens := Some ((case tokens target of Some ts \<Rightarrow> ts | None \<Rightarrow> [])
                                  @ [case ev_token event of Some t \<Rightarrow> t | None \<Rightarrow> []]),
                  content := content target
                             @ (case ev_token event of Some t \<Rightarrow> t | None \<Rightarrow> []) \<rparr>
      | ResponseStatus \<Rightarrow>
          target\<lparr> status := (case ev_status event of Some s \<Rightarrow> Some s | None \<Rightarrow> status target),
                  isStreaming :=
                    Some (ev_status event = Some Thinking \<or> ev_status event = Some Streaming) \<rparr>
      | ResponseEnd \<Rightarrow>
          target\<lparr> status := Some (case ev_status event of Some s \<Rightarrow> s | None \<Rightarrow> Completed),
                  isStreaming := Some False,
                  finished := Some True,
                  content := (case ev_content event of Some c \<Rightarrow> c | None \<Rightarrow> content target) \<rparr>
      | ResponseError \<Rightarrow>
          target\<lparr> status := Some Error, isStreaming := Some False, finished := Some True \<rparr>
      | ResponseStop \<Rightarrow>
          target\<lparr> status := Some Stopped, isStreaming := Some False, finished := Some True \<rparr>
      | ResponseCelebration \<Rightarrow> target)"

text \<open>\<^verbatim>\<open>handleStreamEvent\<close>: events of another conversation are dropped.\<close>

definition handleStreamEvent :: "nat \<Rightarrow> string \<Rightarrow> AgentStreamEvent \<Rightarrow> App \<Rightarrow> App" where
  "handleStreamEvent now fresh event app =
     (if ev_conversationId event \<noteq> conversationId app then app
      else
        (case ensureAgentMessage now fresh (messages app) event of
           (updated, index) \<Rightarrow>
             let next = nextMessage event (updated ! index);
                 updated' = updated[index := next]
             in app\<lparr> messages :=
                  (if truthy (finished next) then releaseQueuedAgentResponses updated'
                   else updated') \<rparr>))"

text \<open>
  \<^verbatim>\<open>stopStreaming\<close>: the last agent message that is streaming is stopped locally, after the
  stop command has been handed to the service. A missing or empty response id is falsy and
  ends the call at once.
\<close>

definition stopStreaming :: "App \<Rightarrow> App" where
  "stopStreaming app =
     (case List.find (\<lambda>m. role m = Agent \<and> truthy (isStreaming m)) (rev (messages app)) of
        None \<Rightarrow> app
      | Some active \<Rightarrow>
          if \<not> nonEmptyId (responseId active) then app
          else
            let app' = app\<lparr> sent := sent app
                  @ [StopResponse (conversationId app) (responseId active) (Some ''user-request'')] \<rparr>
            in (case findIndex (\<lambda>m. msg_id m = msg_id active) (messages app') of
                  None \<Rightarrow> app'
                | Some index \<Rightarrow>
                    app'\<lparr> messages := releaseQueuedAgentResponses
                      ((messages app')[index := (messages app' ! index)
                          \<lparr> status := Some Stopped, isStreaming := Some False,
                            finished := Some True \<rparr>]) \<rparr>))"

text \<open>
  \<^verbatim>\<open>submitPrompt\<close>, with the trimmed text of the composer as \<open>rawValue\<close>, and
  \<^verbatim>\<open>startNewChat\<close>, with the value of \<^verbatim>\<open>createConversationId()\<close> as \<open>freshConversationId\<close>.
  The form control of the composer is not part of the model.
\<close>

definition submitPrompt :: "nat \<Rightarrow> string \<Rightarrow> string \<Rightarrow> App \<Rightarrow> App" where
  "submitPrompt now fresh rawValue app =
     (if rawValue = [] then app
      else app\<lparr> messages := messages app
                   @ [\<lparr> msg_id = fresh, role = User, content = rawValue, createdAt = now,
                        responseId = None, status = None, tokens = None,
                        isStreaming = None, finished = None, visible = True \<rparr>],
                sent := sent app @ [UserMessage (conversationId app) rawValue] \<rparr>)"

definition startNewChat :: "string \<Rightarrow> App \<Rightarrow> App" where
  "startNewChat freshConversationId app =
     app\<lparr> conversationId := freshConversationId,
          messages := [],
          sent := sent app @ [NewSession freshConversationId] \<rparr>"

text \<open>The component as its constructor leaves it, for the conversation id it drew.\<close>

definition newApp :: "string \<Rightarrow> App" where
  "newApp cid = \<lparr> conversationId = cid, messages = [], sent = [NewSession cid] \<rparr>"

text \<open>
  What can happen to the component: an event arrives from \<^verbatim>\<open>events$\<close>, or the user submits
  a prompt, presses stop or starts a new chat. A run applies a list of them in order.
\<close>

datatype Action =
  Deliver nat string AgentStreamEvent
  | Submit nat string string
  | Stop
  | NewChat string

fun act :: "Action \<Rightarrow> App \<Rightarrow> App" where
  "act (Deliver now fresh event) app = handleStreamEvent now fresh event app"
| "act (Submit now fresh rawValue) app = submitPrompt now fresh rawValue app"
| "act Stop app = stopStreaming app"
| "act (NewChat cid) app = startNewChat cid app"

fun run :: "Action list \<Rightarrow> App \<Rightarrow> App" where
  "run [] app = app"
| "run (a # as) app = run as (act a app)"

text \<open>The deliveries of events that carry the conversation id \<open>cid\<close>.\<close>

fun fromConversation :: "string \<Rightarrow> Action \<Rightarrow> bool" where
  "fromConversation cid (Deliver now fresh e) = (ev_conversationId e = cid)"
| "fromConversation cid a = False"

text \<open>
  An event of the conversation \<open>''c''\<close> that carries the required fields only; the concrete
  runs below are built from it.
\<close>

definition event :: "AgentStreamEventType \<Rightarrow> string \<Rightarrow> AgentStreamEvent" where
  "event t r =
     \<lparr> ev_conversationId = ''c'', ev_responseId = Some r, ev_type = t, ev_status = None,
       ev_token = None, ev_tokens = None, ev_content = None \<rparr>"

section \<open>Predicates on the message list\<close>

text \<open>
  The slot the visibility policy keeps single: an agent message that is shown and not
  finished.
\<close>

definition activeSlot :: "ConversationMessage \<Rightarrow> bool" where
  "activeSlot m = (role m = Agent \<and> visible m \<and> \<not> truthy (finished m))"

text \<open>
  The order the queue keeps: no agent message behind an unfinished agent message is shown.
\<close>

fun queueOrdered :: "ConversationMessage list \<Rightarrow> bool" where
  "queueOrdered [] = True"
| "queueOrdered (m # ms) =
     ((if role m = Agent \<and> \<not> truthy (finished m)
       then list_all (\<lambda>x. \<not> (role x = Agent \<and> visible x)) ms else True)
      \<and> queueOrdered ms)"

text \<open>The agent message an event with response id \<open>rid\<close> is applied to, if there is one.\<close>

definition agentMessage ::
  "string option \<Rightarrow> ConversationMessage list \<Rightarrow> ConversationMessage option" where
  "agentMessage rid msgs =
     (case findIndex (\<lambda>m. responseId m = rid \<and> role m = Agent) msgs of
        None \<Rightarrow> None
      | Some i \<Rightarrow> Some (msgs ! i))"

text \<open>
  A message whose streaming flag agrees with its status and its finished flag.
\<close>

definition streamingConsistent :: "ConversationMessage \<Rightarrow> bool" where
  "streamingConsistent m =
     (if truthy (isStreaming m)
      then (status m = Some Thinking \<or> status m = Some Streaming) \<and> \<not> truthy (finished m)
      else True)"

text \<open>
  The events whose case of the \<^verbatim>\<open>switch\<close> sets \<open>isStreaming = true\<close>: a \<^verbatim>\<open>response-start\<close>, a
  \<^verbatim>\<open>response-token\<close>, and a \<^verbatim>\<open>response-status\<close> with the status \<open>thinking\<close> or \<open>streaming\<close>.
\<close>

definition setsStreaming :: "AgentStreamEvent \<Rightarrow> bool" where
  "setsStreaming e =
     (ev_type e = ResponseStart \<or> ev_type e = ResponseToken
      \<or> (ev_type e = ResponseStatus
          \<and> (ev_status e = Some Thinking \<or> ev_status e = Some Streaming)))"

text \<open>
  A run in the order the backend is expected to keep: no event that sets
  \<open>isStreaming = true\<close> arrives for a message that is already finished, and a
  \<^verbatim>\<open>response-start\<close> carries no status but \<^verbatim>\<open>thinking\<close> or \<^verbatim>\<open>streaming\<close>. Every other event
  for a finished message (an end, error or stop, a celebration, a status such as
  \<open>completed\<close>), the events of another conversation and the user's actions are not
  restricted.
\<close>

definition inOrder :: "AgentStreamEvent \<Rightarrow> App \<Rightarrow> bool" where
  "inOrder e app =
     (if ev_conversationId e \<noteq> conversationId app then True
      else
        (case agentMessage (ev_responseId e) (messages app) of
           None \<Rightarrow> True
         | Some m \<Rightarrow> \<not> (truthy (finished m) \<and> setsStreaming e))
        \<and> (if ev_type e = ResponseStart
           then ev_status e = None \<or> ev_status e = Some Thinking \<or> ev_status e = Some Streaming
           else True))"

fun orderly :: "Action list \<Rightarrow> App \<Rightarrow> bool" where
  "orderly [] app = True"
| "orderly (Deliver now fresh e # as) app =
     (inOrder e app \<and> orderly as (handleStreamEvent now fresh e app))"
| "orderly (a # as) app = orderly as (act a app)"

section \<open>The dispatcher (ai-stream.service.ts)\<close>

text \<open>
  What the deserializer hands to \<^verbatim>\<open>dispatch\<close>: the value \<^verbatim>\<open>JSON.parse\<close> made of a frame, or
  \<^verbatim>\<open>null\<close> when parsing failed. Of a number only its being zero matters here. The fields of
  an object are an association list whose keys are distinct.
\<close>

datatype json =
  JNull | JBool bool | JNum int | JStr string | JArr "json list"
  | JObj "(string \<times> json) list"

datatype dispatchError = TypeError

text \<open>JavaScript truthiness, as \<^verbatim>\<open>!payload\<close> tests it.\<close>

fun jsTruthy :: "json \<Rightarrow> bool" where
  "jsTruthy JNull = False"
| "jsTruthy (JBool b) = b"
| "jsTruthy (JNum n) = (n \<noteq> 0)"
| "jsTruthy (JStr s) = (s \<noteq> [])"
| "jsTruthy (JArr xs) = True"
| "jsTruthy (JObj members) = True"

text \<open>
  \<^verbatim>\<open>dispatch\<close>: \<open>Inr (Some p)\<close> when \<open>p\<close> is passed to \<^verbatim>\<open>eventsSubject.next\<close>, \<open>Inr None\<close> when
  the call returns without emitting. The operator \<^verbatim>\<open>in\<close> throws a \<^verbatim>\<open>TypeError\<close> on a
  primitive value, which is \<open>Inl TypeError\<close>.
\<close>

definition dispatch :: "json \<Rightarrow> dispatchError + json option" where
  "dispatch payload =
     (if \<not> jsTruthy payload then Inr None
      else
        (case payload of
           JObj members \<Rightarrow>
             (case map_of members ''type'' of
                None \<Rightarrow> Inr None
              | Some (JStr t) \<Rightarrow>
                  if prefix ''response'' t then Inr (Some payload) else Inr None
              | Some _ \<Rightarrow> Inr None)
         | JArr xs \<Rightarrow> Inr None
         | _ \<Rightarrow> Inl TypeError))"

text \<open>The wire names of \<^verbatim>\<open>AgentStreamEventType\<close>.\<close>

fun eventTypeName :: "AgentStreamEventType \<Rightarrow> string" where
  "eventTypeName ResponseStart = ''response-start''"
| "eventTypeName ResponseToken = ''response-token''"
| "eventTypeName ResponseStatus = ''response-status''"
| "eventTypeName ResponseEnd = ''response-end''"
| "eventTypeName ResponseError = ''response-error''"
| "eventTypeName ResponseStop = ''response-stop''"
| "eventTypeName ResponseCelebration = ''response-celebration''"

section \<open>The connection (ai-stream.service.ts)\<close>

datatype AgentConnectionStatus = Disconnected | Connecting | Connected | Reconnecting

text \<open>
  What the service reads from its surroundings: \<^verbatim>\<open>environment.agentSocketUrl\<close> and
  \<^verbatim>\<open>isPlatformBrowser(this.platformId)\<close>.
\<close>

record Environment =
  agentSocketUrl :: string
  platformBrowser :: bool

text \<open>
  The fields of \<^verbatim>\<open>AiStreamService\<close>. \<open>socket\<close> is \<^verbatim>\<open>socket$\<close>, with the serial number of
  the \<^verbatim>\<open>WebSocketSubject\<close> it holds; \<open>reconnectTimer\<close> tells whether a timer is pending;
  \<open>created\<close> counts the calls of \<^verbatim>\<open>webSocket(...)\<close>, that is the connection attempts made.
\<close>

record AiStreamService =
  socket :: "nat option"
  connectionState :: AgentConnectionStatus
  reconnectTimer :: bool
  manualClose :: bool
  created :: nat

definition disposeSocket :: "AiStreamService \<Rightarrow> AiStreamService" where
  "disposeSocket s = s\<lparr> reconnectTimer := False, socket := None \<rparr>"

definition connect :: "Environment \<Rightarrow> AiStreamService \<Rightarrow> AiStreamService" where
  "connect env s =
     (if agentSocketUrl env = [] then s
      else
        let reconnecting = (socket s \<noteq> None);
            s' = disposeSocket s
        in s'\<lparr> connectionState := (if reconnecting then Reconnecting else Connecting),
               socket := Some (created s'),
               created := Suc (created s') \<rparr>)"

definition scheduleReconnect :: "Environment \<Rightarrow> AiStreamService \<Rightarrow> AiStreamService" where
  "scheduleReconnect env s =
     (if reconnectTimer s \<or> \<not> platformBrowser env then s
      else s\<lparr> reconnectTimer := True \<rparr>)"

text \<open>
  The callback \<^verbatim>\<open>scheduleReconnect\<close> gives to \<^verbatim>\<open>setTimeout\<close>; it runs only if the timer is
  still pending when the delay has passed.
\<close>

definition reconnectTimerFires :: "Environment \<Rightarrow> AiStreamService \<Rightarrow> AiStreamService" where
  "reconnectTimerFires env s =
     (if reconnectTimer s then connect env (s\<lparr> reconnectTimer := False \<rparr>) else s)"

text \<open>The close notification of the socket (\<^verbatim>\<open>closeObserver\<close>) and its error.\<close>

definition handleDisconnect :: "Environment \<Rightarrow> AiStreamService \<Rightarrow> AiStreamService" where
  "handleDisconnect env s =
     (if manualClose s
      then s\<lparr> connectionState := Disconnected, manualClose := False \<rparr>
      else scheduleReconnect env (s\<lparr> connectionState := Disconnected \<rparr>))"

definition handleError :: "Environment \<Rightarrow> AiStreamService \<Rightarrow> AiStreamService" where
  "handleError env s = scheduleReconnect env (s\<lparr> connectionState := Disconnected \<rparr>)"

definition disconnect :: "AiStreamService \<Rightarrow> AiStreamService" where
  "disconnect s = disposeSocket (s\<lparr> manualClose := True \<rparr>)"

section \<open>Arrays: \<open>findIndex\<close> and \<open>find\<close> on a reversed copy\<close>

lemma findIndex_None_iff: "findIndex P xs = None \<longleftrightarrow> (\<forall>x\<in>set xs. \<not> P x)"
  by (induction xs) auto

lemma findIndex_SomeD:
  "findIndex P xs = Some i \<Longrightarrow> i < length xs \<and> P (xs ! i) \<and> (\<forall>j<i. \<not> P (xs ! j))"
proof (induction xs arbitrary: i)
  case Nil
  then show ?case by simp
next
  case (Cons x xs)
  show ?case
  proof (cases "P x")
    case True
    with Cons.prems show ?thesis by simp
  next
    case False
    with Cons.prems obtain k where k: "findIndex P xs = Some k" "i = Suc k"
      by auto
    from Cons.IH[OF k(1)] False k(2) show ?thesis
      by (auto simp: nth_Cons split: nat.splits)
  qed
qed

lemma findIndex_first:
  assumes "h < length xs" "P (xs ! h)" "\<forall>j<h. \<not> P (xs ! j)"
  shows "findIndex P xs = Some h"
proof -
  from assms(1,2) have "\<exists>x\<in>set xs. P x" using nth_mem by blast
  then have "findIndex P xs \<noteq> None" by (simp add: findIndex_None_iff)
  then obtain k where k: "findIndex P xs = Some k" by auto
  from findIndex_SomeD[OF k] assms have "\<not> k < h" "\<not> h < k" by auto
  then have "k = h" by simp
  with k show ?thesis by simp
qed

lemma findIndex_map_cong:
  "map P xs = map P ys \<Longrightarrow> findIndex P xs = findIndex P ys"
proof (induction xs arbitrary: ys)
  case Nil
  then show ?case by simp
next
  case (Cons x xs)
  then obtain y ys' where "ys = y # ys'" by (cases ys) auto
  with Cons show ?case by auto
qed

lemma findIndex_append:
  "findIndex P (xs @ ys) =
     (case findIndex P xs of Some i \<Rightarrow> Some i
      | None \<Rightarrow> map_option (\<lambda>k. length xs + k) (findIndex P ys))"
  by (induction xs) (cases "findIndex P ys"; auto split: option.splits)+

lemma findIndex_update_same:
  assumes "findIndex P ms = Some i" and "P m'"
  shows "findIndex P (ms[i := m']) = Some i"
proof -
  from findIndex_SomeD[OF assms(1)] have i: "i < length ms" "P (ms ! i)" by auto
  have "P m' = map P ms ! i" using i assms(2) by simp
  then have "map P (ms[i := m']) = (map P ms)[i := map P ms ! i]"
    by (simp only: map_update)
  then have "map P (ms[i := m']) = map P ms" by (simp only: list_update_id)
  from findIndex_map_cong[OF this] assms(1) show ?thesis by simp
qed

lemma findIndex_snoc_new:
  assumes "findIndex P ms = None" and "P m'"
  shows "findIndex P (ms @ [m']) = Some (length ms)"
  using assms by (simp add: findIndex_append)

lemma findIndex_distinct:
  assumes d: "distinct (map f xs)" and i: "i < length xs"
  shows "findIndex (\<lambda>m. f m = f (xs ! i)) xs = Some i"
proof -
  from i have "findIndex (\<lambda>m. f m = f (xs ! i)) xs \<noteq> None"
    by (auto simp: findIndex_None_iff)
  then obtain k where k: "findIndex (\<lambda>m. f m = f (xs ! i)) xs = Some k" by auto
  from findIndex_SomeD[OF k] have "k < length xs" "f (xs ! k) = f (xs ! i)" by auto
  with d i have "k = i"
    by (metis length_map nth_eq_iff_index_eq nth_map)
  with k show ?thesis by simp
qed

lemma find_rev_None_iff: "List.find P (rev xs) = None \<longleftrightarrow> (\<forall>x\<in>set xs. \<not> P x)"
  by (auto simp: find_None_iff)

lemma find_rev_SomeD:
  "List.find P (rev xs) = Some x \<Longrightarrow>
     \<exists>p<length xs. xs ! p = x \<and> P x \<and> (\<forall>q. p < q \<and> q < length xs \<longrightarrow> \<not> P (xs ! q))"
proof (induction xs rule: rev_induct)
  case Nil
  then show ?case by simp
next
  case (snoc a xs)
  show ?case
  proof (cases "P a")
    case True
    with snoc.prems have "x = a" by simp
    with True show ?thesis
      by (intro exI[of _ "length xs"]) auto
  next
    case False
    with snoc.prems have "List.find P (rev xs) = Some x" by simp
    from snoc.IH[OF this] obtain p where p: "p < length xs" "xs ! p = x" "P x"
      "\<forall>q. p < q \<and> q < length xs \<longrightarrow> \<not> P (xs ! q)" by blast
    show ?thesis
    proof (intro exI[of _ p] conjI allI impI)
      show "p < length (xs @ [a])" using p(1) by simp
      show "(xs @ [a]) ! p = x" using p(1,2) by (simp add: nth_append)
      show "P x" by (rule p(3))
      fix q assume "p < q \<and> q < length (xs @ [a])"
      then show "\<not> P ((xs @ [a]) ! q)" using p(4) False
        by (cases "q < length xs") (auto simp: nth_append less_Suc_eq)
    qed
  qed
qed

lemma find_rev_latest:
  assumes i: "i < length xs" and P: "P (xs ! i)"
    and last: "\<forall>j. i < j \<and> j < length xs \<longrightarrow> \<not> P (xs ! j)"
  shows "List.find P (rev xs) = Some (xs ! i)"
proof -
  from i P have "\<exists>x\<in>set xs. P x" using nth_mem by blast
  then have "List.find P (rev xs) \<noteq> None"
    by (auto simp: find_None_iff)
  then obtain x where x: "List.find P (rev xs) = Some x" by auto
  from find_rev_SomeD[OF x] obtain p where p: "p < length xs" "xs ! p = x" "P x"
    "\<forall>q. p < q \<and> q < length xs \<longrightarrow> \<not> P (xs ! q)" by blast
  have "\<not> p < i" using p(4) i P by auto
  moreover have "\<not> i < p" using last p(1,2,3) by auto
  ultimately have "p = i" by simp
  with x p(2) show ?thesis by simp
qed

lemma nth_in_take: "p < h \<Longrightarrow> h \<le> length xs \<Longrightarrow> xs ! p \<in> set (take h xs)"
  by (metis in_set_conv_nth length_take min.absorb2 nth_take)

lemma list_all_update:
  "list_all P xs \<Longrightarrow> P x \<Longrightarrow> list_all P (xs[i := x])"
  using set_update_subset_insert[of xs i x] by (auto simp: list_all_iff)

section \<open>What the release changes\<close>

lemma release_length [simp]: "length (releaseQueuedAgentResponses ms) = length ms"
  by (simp add: releaseQueuedAgentResponses_def split: option.splits)

lemma release_nth:
  "k < length ms \<Longrightarrow>
   releaseQueuedAgentResponses ms ! k = ms ! k
   \<or> releaseQueuedAgentResponses ms ! k = (ms ! k)\<lparr>visible := True\<rparr>"
  by (auto simp: releaseQueuedAgentResponses_def nth_list_update split: option.splits
      dest!: findIndex_SomeD)

lemma release_fields:
  assumes "k < length ms"
  shows "status (releaseQueuedAgentResponses ms ! k) = status (ms ! k)"
    "isStreaming (releaseQueuedAgentResponses ms ! k) = isStreaming (ms ! k)"
    "finished (releaseQueuedAgentResponses ms ! k) = finished (ms ! k)"
    "content (releaseQueuedAgentResponses ms ! k) = content (ms ! k)"
    "role (releaseQueuedAgentResponses ms ! k) = role (ms ! k)"
    "responseId (releaseQueuedAgentResponses ms ! k) = responseId (ms ! k)"
    "msg_id (releaseQueuedAgentResponses ms ! k) = msg_id (ms ! k)"
    "tokens (releaseQueuedAgentResponses ms ! k) = tokens (ms ! k)"
  using release_nth[OF assms] by auto

lemma release_findIndex:
  assumes "\<And>m. P (m\<lparr>visible := True\<rparr>) = P m"
  shows "findIndex P (releaseQueuedAgentResponses ms) = findIndex P ms"
proof (rule findIndex_map_cong, rule nth_equalityI)
  show "length (map P (releaseQueuedAgentResponses ms)) = length (map P ms)" by simp
  fix k assume "k < length (map P (releaseQueuedAgentResponses ms))"
  then have k: "k < length ms" by simp
  have "P (releaseQueuedAgentResponses ms ! k) = P (ms ! k)"
  proof -
    from release_nth[OF k] consider
      (same) "releaseQueuedAgentResponses ms ! k = ms ! k"
      | (shown) "releaseQueuedAgentResponses ms ! k = (ms ! k)\<lparr>visible := True\<rparr>"
      by blast
    then show ?thesis by cases (simp_all only: assms)
  qed
  with k show "map P (releaseQueuedAgentResponses ms) ! k = map P ms ! k" by simp
qed

lemma release_none_hidden:
  "\<forall>m\<in>set ms. \<not> (role m = Agent \<and> \<not> visible m) \<Longrightarrow> releaseQueuedAgentResponses ms = ms"
proof -
  assume "\<forall>m\<in>set ms. \<not> (role m = Agent \<and> \<not> visible m)"
  then have "findIndex (\<lambda>m. role m = Agent \<and> \<not> visible m) ms = None"
    by (simp add: findIndex_None_iff)
  then show ?thesis by (simp add: releaseQueuedAgentResponses_def)
qed

text \<open>
  The release, said without the array functions: \<open>h\<close> is the first hidden agent message;
  it is shown if every \<open>p\<close> that is the nearest agent message before it is finished, which
  is the case too if there is none.
\<close>

lemma release_first_hidden:
  assumes h: "h < length ms" "role (ms ! h) = Agent" "\<not> visible (ms ! h)"
    and first: "\<forall>j<h. \<not> (role (ms ! j) = Agent \<and> \<not> visible (ms ! j))"
  shows "releaseQueuedAgentResponses ms =
     (if \<forall>p<h. role (ms ! p) = Agent \<and> (\<forall>q. p < q \<and> q < h \<longrightarrow> role (ms ! q) \<noteq> Agent)
              \<longrightarrow> truthy (finished (ms ! p))
      then ms[h := (ms ! h)\<lparr>visible := True\<rparr>] else ms)"
proof -
  have fi: "findIndex (\<lambda>m. role m = Agent \<and> \<not> visible m) ms = Some h"
    using h first by (intro findIndex_first) auto
  show ?thesis
  proof (cases "List.find (\<lambda>m. role m = Agent) (rev (take h ms))")
    case None
    then have no: "\<forall>x\<in>set (take h ms). role x \<noteq> Agent" by (simp add: find_rev_None_iff)
    have "\<forall>p<h. role (ms ! p) \<noteq> Agent"
    proof (intro allI impI)
      fix p assume "p < h"
      with h(1) have "ms ! p \<in> set (take h ms)" by (simp add: nth_in_take)
      with no show "role (ms ! p) \<noteq> Agent" by simp
    qed
    with fi None show ?thesis by (simp add: releaseQueuedAgentResponses_def)
  next
    case (Some x)
    from find_rev_SomeD[OF Some] h(1)
    obtain p where p: "p < h" "ms ! p = x" "role x = Agent"
      "\<forall>q. p < q \<and> q < h \<longrightarrow> role (ms ! q) \<noteq> Agent" by auto
    have "(\<forall>p'<h. role (ms ! p') = Agent \<and> (\<forall>q. p' < q \<and> q < h \<longrightarrow> role (ms ! q) \<noteq> Agent)
              \<longrightarrow> truthy (finished (ms ! p'))) = truthy (finished x)"
    proof
      assume "\<forall>p'<h. role (ms ! p') = Agent \<and> (\<forall>q. p' < q \<and> q < h \<longrightarrow> role (ms ! q) \<noteq> Agent)
              \<longrightarrow> truthy (finished (ms ! p'))"
      with p show "truthy (finished x)" by blast
    next
      assume fx: "truthy (finished x)"
      show "\<forall>p'<h. role (ms ! p') = Agent \<and> (\<forall>q. p' < q \<and> q < h \<longrightarrow> role (ms ! q) \<noteq> Agent)
              \<longrightarrow> truthy (finished (ms ! p'))"
      proof (intro allI impI)
        fix p' assume p': "p' < h"
          "role (ms ! p') = Agent \<and> (\<forall>q. p' < q \<and> q < h \<longrightarrow> role (ms ! q) \<noteq> Agent)"
        with p have "\<not> p < p'" "\<not> p' < p" by auto
        then have "p' = p" by simp
        with fx p(2) show "truthy (finished (ms ! p'))" by simp
      qed
    qed
    with fi Some show ?thesis by (simp add: releaseQueuedAgentResponses_def)
  qed
qed

section \<open>What an event changes\<close>

lemma nextMessage_keeps:
  "role (nextMessage e t) = role t" "visible (nextMessage e t) = visible t"
  "responseId (nextMessage e t) = responseId t" "msg_id (nextMessage e t) = msg_id t"
  "truthy (finished t) \<Longrightarrow> truthy (finished (nextMessage e t))"
  by (cases "ev_type e"; simp add: nextMessage_def truthy_def)+

lemma ensureAgentMessage_index:
  "ensureAgentMessage now fresh ms e = (u, i) \<Longrightarrow> i < length u"
  by (auto simp: ensureAgentMessage_def split: option.splits dest: findIndex_SomeD)

lemma handleStreamEvent_conversationId:
  "conversationId (handleStreamEvent now fresh e app) = conversationId app"
  by (simp add: handleStreamEvent_def Let_def split: prod.splits)

lemma handleStreamEvent_other_conversation:
  "ev_conversationId e \<noteq> conversationId app \<Longrightarrow> handleStreamEvent now fresh e app = app"
  by (simp add: handleStreamEvent_def)

text \<open>
  The message an event is applied to: after the event it stands at the index that
  \<^verbatim>\<open>ensureAgentMessage\<close> returned and is what the \<^verbatim>\<open>switch\<close> made of it, shown or not.
\<close>

lemma handleStreamEvent_target:
  assumes c: "ev_conversationId e = conversationId app"
    and ui: "ensureAgentMessage now fresh (messages app) e = (u, i)"
  shows "findIndex (\<lambda>m. responseId m = ev_responseId e \<and> role m = Agent)
           (messages (handleStreamEvent now fresh e app)) = Some i"
    and "i < length (messages (handleStreamEvent now fresh e app))"
    and "messages (handleStreamEvent now fresh e app) ! i = nextMessage e (u ! i)
       \<or> messages (handleStreamEvent now fresh e app) ! i
            = (nextMessage e (u ! i))\<lparr>visible := True\<rparr>"
    and "messages (handleStreamEvent now fresh e app)
          = (if truthy (finished (nextMessage e (u ! i)))
             then releaseQueuedAgentResponses (u[i := nextMessage e (u ! i)])
             else u[i := nextMessage e (u ! i)])"
proof -
  let ?P = "\<lambda>m. responseId m = ev_responseId e \<and> role m = Agent"
  let ?n = "nextMessage e (u ! i)"
  let ?u' = "u[i := ?n]"
  show r: "messages (handleStreamEvent now fresh e app)
          = (if truthy (finished ?n) then releaseQueuedAgentResponses ?u' else ?u')"
    using c ui by (simp add: handleStreamEvent_def Let_def)
  have il: "i < length u" by (rule ensureAgentMessage_index[OF ui])
  have fu: "findIndex ?P u = Some i"
  proof (cases "findIndex ?P (messages app)")
    case None
    with ui have "u = messages app @ [insertion now fresh (messages app) e]"
      "i = length (messages app)" by (simp_all add: ensureAgentMessage_def)
    with None show ?thesis by (simp add: findIndex_snoc_new insertion_def)
  next
    case (Some k)
    with ui show ?thesis by (simp add: ensureAgentMessage_def)
  qed
  from findIndex_SomeD[OF fu] have "?P (u ! i)" by simp
  then have "?P ?n" by (simp add: nextMessage_keeps)
  from findIndex_update_same[OF fu this] have fu': "findIndex ?P ?u' = Some i" .
  then show "findIndex ?P (messages (handleStreamEvent now fresh e app)) = Some i"
    unfolding r by (simp add: release_findIndex)
  show "i < length (messages (handleStreamEvent now fresh e app))"
    unfolding r using il by simp
  have n: "?u' ! i = ?n" using il by simp
  have "i < length ?u'" using il by simp
  from release_nth[OF this] have "releaseQueuedAgentResponses ?u' ! i = ?n
      \<or> releaseQueuedAgentResponses ?u' ! i = ?n\<lparr>visible := True\<rparr>"
    unfolding n .
  with n show "messages (handleStreamEvent now fresh e app) ! i = ?n
       \<or> messages (handleStreamEvent now fresh e app) ! i = ?n\<lparr>visible := True\<rparr>"
    unfolding r by (cases "truthy (finished ?n)") simp_all
qed

lemma handleStreamEvent_existing:
  assumes c: "ev_conversationId e = conversationId app"
    and f: "findIndex (\<lambda>m. responseId m = ev_responseId e \<and> role m = Agent) (messages app) = Some i"
  shows "messages (handleStreamEvent now fresh e app)
          = (if truthy (finished (nextMessage e (messages app ! i)))
             then releaseQueuedAgentResponses ((messages app)[i := nextMessage e (messages app ! i)])
             else (messages app)[i := nextMessage e (messages app ! i)])"
proof -
  from f have "ensureAgentMessage now fresh (messages app) e = (messages app, i)"
    by (simp add: ensureAgentMessage_def)
  from handleStreamEvent_target(4)[OF c this] show ?thesis .
qed

lemma handleStreamEvent_message:
  assumes c: "ev_conversationId e = conversationId app"
  shows "\<exists>m'. agentMessage (ev_responseId e) (messages (handleStreamEvent now fresh e app)) = Some m'
      \<and> (m' = nextMessage e
                 (case agentMessage (ev_responseId e) (messages app) of
                    Some m \<Rightarrow> m | None \<Rightarrow> insertion now fresh (messages app) e)
          \<or> m' = (nextMessage e
                 (case agentMessage (ev_responseId e) (messages app) of
                    Some m \<Rightarrow> m | None \<Rightarrow> insertion now fresh (messages app) e))\<lparr>visible := True\<rparr>)"
proof -
  let ?P = "\<lambda>m. responseId m = ev_responseId e \<and> role m = Agent"
  obtain u i where ui: "ensureAgentMessage now fresh (messages app) e = (u, i)"
    by (cases "ensureAgentMessage now fresh (messages app) e")
  have t: "u ! i = (case agentMessage (ev_responseId e) (messages app) of
                    Some m \<Rightarrow> m | None \<Rightarrow> insertion now fresh (messages app) e)"
    using ui by (auto simp: ensureAgentMessage_def agentMessage_def split: option.splits)
  let ?r = "messages (handleStreamEvent now fresh e app)"
  from handleStreamEvent_target(1)[OF c ui]
  have "agentMessage (ev_responseId e) ?r = Some (?r ! i)" by (simp add: agentMessage_def)
  with handleStreamEvent_target(3)[OF c ui] show ?thesis unfolding t by auto
qed

lemma run_append: "run (as @ bs) app = run bs (run as app)"
  by (induction as arbitrary: app) simp_all

section \<open>The order of the queue is kept by every action\<close>

lemma queueOrdered_iff:
  "queueOrdered ms \<longleftrightarrow>
     (\<forall>i j. i < j \<longrightarrow> j < length ms \<longrightarrow> role (ms ! i) = Agent \<longrightarrow> \<not> truthy (finished (ms ! i))
        \<longrightarrow> \<not> (role (ms ! j) = Agent \<and> visible (ms ! j)))"
proof (induction ms)
  case Nil
  then show ?case by simp
next
  case (Cons m ms)
  show ?case
  proof
    assume L: "queueOrdered (m # ms)"
    show "\<forall>i j. i < j \<longrightarrow> j < length (m # ms) \<longrightarrow> role ((m # ms) ! i) = Agent \<longrightarrow>
        \<not> truthy (finished ((m # ms) ! i)) \<longrightarrow> \<not> (role ((m # ms) ! j) = Agent \<and> visible ((m # ms) ! j))"
    proof (intro allI impI)
      fix i j
      assume ij: "i < j" "j < length (m # ms)" "role ((m # ms) ! i) = Agent"
        "\<not> truthy (finished ((m # ms) ! i))"
      then obtain j' where j': "j = Suc j'" "j' < length ms" by (cases j) auto
      show "\<not> (role ((m # ms) ! j) = Agent \<and> visible ((m # ms) ! j))"
      proof (cases i)
        case 0
        with ij L have "list_all (\<lambda>x. \<not> (role x = Agent \<and> visible x)) ms" by simp
        then show ?thesis using j' by (simp add: list_all_length)
      next
        case (Suc i')
        with ij j' L Cons.IH show ?thesis by auto
      qed
    qed
  next
    assume R: "\<forall>i j. i < j \<longrightarrow> j < length (m # ms) \<longrightarrow> role ((m # ms) ! i) = Agent \<longrightarrow>
        \<not> truthy (finished ((m # ms) ! i)) \<longrightarrow> \<not> (role ((m # ms) ! j) = Agent \<and> visible ((m # ms) ! j))"
    have tail: "queueOrdered ms"
      unfolding Cons.IH
    proof (intro allI impI)
      fix i j
      assume "i < j" "j < length ms" "role (ms ! i) = Agent" "\<not> truthy (finished (ms ! i))"
      with R[rule_format, of "Suc i" "Suc j"]
      show "\<not> (role (ms ! j) = Agent \<and> visible (ms ! j))" by simp
    qed
    have head: "role m = Agent \<and> \<not> truthy (finished m) \<Longrightarrow>
        list_all (\<lambda>x. \<not> (role x = Agent \<and> visible x)) ms"
      unfolding list_all_length
    proof (intro allI impI)
      fix n assume "role m = Agent \<and> \<not> truthy (finished m)" "n < length ms"
      with R[rule_format, of 0 "Suc n"]
      show "\<not> (role (ms ! n) = Agent \<and> visible (ms ! n))" by simp
    qed
    from tail head show "queueOrdered (m # ms)" by simp
  qed
qed

lemma queueOrdered_count: "queueOrdered ms \<Longrightarrow> length (filter activeSlot ms) \<le> 1"
proof (induction ms)
  case Nil
  then show ?case by simp
next
  case (Cons m ms)
  show ?case
  proof (cases "role m = Agent \<and> \<not> truthy (finished m)")
    case True
    with Cons.prems have "list_all (\<lambda>x. \<not> (role x = Agent \<and> visible x)) ms" by simp
    then have "filter activeSlot ms = []"
      by (auto simp: list_all_iff activeSlot_def filter_empty_conv)
    then show ?thesis by simp
  next
    case False
    then have "\<not> activeSlot m" by (auto simp: activeSlot_def)
    with Cons show ?thesis by simp
  qed
qed

text \<open>Showing a message keeps the order when every agent message before it is finished.\<close>

lemma queueOrdered_flip:
  assumes K: "queueOrdered ms" and h: "h < length ms"
    and fin: "\<forall>i<h. role (ms ! i) = Agent \<longrightarrow> truthy (finished (ms ! i))"
  shows "queueOrdered (ms[h := (ms ! h)\<lparr>visible := True\<rparr>])"
  unfolding queueOrdered_iff
proof (intro allI impI)
  fix i j
  let ?ns = "ms[h := (ms ! h)\<lparr>visible := True\<rparr>]"
  assume ij: "i < j" "j < length ?ns" "role (?ns ! i) = Agent" "\<not> truthy (finished (?ns ! i))"
  have same: "\<And>k. k < length ms \<Longrightarrow> role (?ns ! k) = role (ms ! k) \<and> finished (?ns ! k) = finished (ms ! k)"
    using h by (simp add: nth_list_update)
  from ij have i: "role (ms ! i) = Agent" "\<not> truthy (finished (ms ! i))"
    using same[of i] by auto
  show "\<not> (role (?ns ! j) = Agent \<and> visible (?ns ! j))"
  proof (cases "j = h")
    case True
    with ij(1) fin i show ?thesis by auto
  next
    case False
    then have "?ns ! j = ms ! j" by simp
    with K ij i show ?thesis by (auto simp: queueOrdered_iff)
  qed
qed

text \<open>
  Rewriting a message keeps the order when its role and visibility stay and it does not
  become unfinished again.
\<close>

lemma queueOrdered_update:
  assumes K: "queueOrdered ms" and i: "i < length ms"
    and r: "role m' = role (ms ! i)" and v: "visible m' = visible (ms ! i)"
    and f: "truthy (finished (ms ! i)) \<Longrightarrow> truthy (finished m')"
  shows "queueOrdered (ms[i := m'])"
  unfolding queueOrdered_iff
proof (intro allI impI)
  fix a b
  let ?ns = "ms[i := m']"
  assume ab: "a < b" "b < length ?ns" "role (?ns ! a) = Agent" "\<not> truthy (finished (?ns ! a))"
  have a: "role (ms ! a) = Agent \<and> \<not> truthy (finished (ms ! a))"
    using ab i r f by (cases "a = i") auto
  have b: "role (?ns ! b) = role (ms ! b) \<and> visible (?ns ! b) = visible (ms ! b)"
    using ab i r v by (cases "b = i") auto
  from K ab a b show "\<not> (role (?ns ! b) = Agent \<and> visible (?ns ! b))"
    by (auto simp: queueOrdered_iff)
qed

lemma queueOrdered_snoc:
  assumes K: "queueOrdered ms"
    and new: "role m = Agent \<and> visible m \<Longrightarrow> \<forall>x\<in>set ms. role x = Agent \<longrightarrow> truthy (finished x)"
  shows "queueOrdered (ms @ [m])"
  unfolding queueOrdered_iff
proof (intro allI impI)
  fix i j
  assume ij: "i < j" "j < length (ms @ [m])" "role ((ms @ [m]) ! i) = Agent"
    "\<not> truthy (finished ((ms @ [m]) ! i))"
  then have i: "i < length ms" by simp
  show "\<not> (role ((ms @ [m]) ! j) = Agent \<and> visible ((ms @ [m]) ! j))"
  proof (cases "j < length ms")
    case True
    with K ij i show ?thesis by (auto simp: queueOrdered_iff nth_append)
  next
    case False
    with ij have j: "(ms @ [m]) ! j = m" by (simp add: nth_append less_Suc_eq)
    from ij i have "role (ms ! i) = Agent" "\<not> truthy (finished (ms ! i))" "ms ! i \<in> set ms"
      by (auto simp: nth_append)
    with new j show ?thesis by auto
  qed
qed

text \<open>
  When the release shows the first hidden agent message of an ordered list, every agent
  message before it is finished, not only the nearest one.
\<close>

lemma release_flip_all_finished:
  assumes K: "queueOrdered ms"
    and h: "findIndex (\<lambda>m. role m = Agent \<and> \<not> visible m) ms = Some h"
    and prev: "case List.find (\<lambda>m. role m = Agent) (rev (take h ms)) of
                 None \<Rightarrow> True | Some p \<Rightarrow> truthy (finished p)"
  shows "\<forall>i<h. role (ms ! i) = Agent \<longrightarrow> truthy (finished (ms ! i))"
proof (intro allI impI)
  fix i assume i: "i < h" "role (ms ! i) = Agent"
  from findIndex_SomeD[OF h] have hl: "h < length ms"
    and vis: "\<forall>j<h. \<not> (role (ms ! j) = Agent \<and> \<not> visible (ms ! j))" by auto
  from i hl have "ms ! i \<in> set (take h ms)"
    by (metis in_set_conv_nth length_take min.absorb2 nth_take order_less_imp_le)
  with i have "List.find (\<lambda>m. role m = Agent) (rev (take h ms)) \<noteq> None"
    by (auto simp: find_None_iff)
  then obtain p where p: "List.find (\<lambda>m. role m = Agent) (rev (take h ms)) = Some p" by auto
  with prev have pf: "truthy (finished p)" by simp
  from find_rev_SomeD[OF p] obtain k where k: "k < h" "ms ! k = p" "role p = Agent"
    "\<forall>q. k < q \<and> q < h \<longrightarrow> role (ms ! q) \<noteq> Agent"
    using hl by auto
  show "truthy (finished (ms ! i))"
  proof (rule ccontr)
    assume nf: "\<not> truthy (finished (ms ! i))"
    with pf k have "i \<noteq> k" by auto
    moreover from k(4) i have "\<not> k < i" by auto
    ultimately have "i < k" by simp
    with K i nf k hl have "\<not> visible (ms ! k)"
      by (auto simp: queueOrdered_iff)
    with vis k show False by auto
  qed
qed

lemma queueOrdered_release:
  assumes K: "queueOrdered ms"
  shows "queueOrdered (releaseQueuedAgentResponses ms)"
proof (cases "findIndex (\<lambda>m. role m = Agent \<and> \<not> visible m) ms")
  case None
  with K show ?thesis by (simp add: releaseQueuedAgentResponses_def)
next
  case (Some h)
  then have hl: "h < length ms" by (auto dest: findIndex_SomeD)
  show ?thesis
  proof (cases "case List.find (\<lambda>m. role m = Agent) (rev (take h ms)) of
                 None \<Rightarrow> True | Some p \<Rightarrow> truthy (finished p)")
    case True
    from release_flip_all_finished[OF K Some True] hl K
    have "queueOrdered (ms[h := (ms ! h)\<lparr>visible := True\<rparr>])"
      by (intro queueOrdered_flip) auto
    with Some True show ?thesis
      by (auto simp: releaseQueuedAgentResponses_def split: option.splits)
  next
    case False
    with Some K show ?thesis
      by (auto simp: releaseQueuedAgentResponses_def split: option.splits)
  qed
qed

text \<open>
  In an ordered list a hidden message behind an unfinished agent message is not the one
  the release shows.
\<close>

lemma release_keeps_hidden:
  assumes K: "queueOrdered ms" and n: "n < length ms" "\<not> visible (ms ! n)"
    and a: "a < n" "role (ms ! a) = Agent" "\<not> truthy (finished (ms ! a))"
  shows "\<not> visible (releaseQueuedAgentResponses ms ! n)"
proof (cases "findIndex (\<lambda>m. role m = Agent \<and> \<not> visible m) ms")
  case None
  with n show ?thesis by (simp add: releaseQueuedAgentResponses_def)
next
  case (Some h)
  show ?thesis
  proof (cases "case List.find (\<lambda>m. role m = Agent) (rev (take h ms)) of
                 None \<Rightarrow> True | Some p \<Rightarrow> truthy (finished p)")
    case True
    from release_flip_all_finished[OF K Some True] a have "h \<noteq> n" by auto
    moreover from Some True
    have "releaseQueuedAgentResponses ms = ms[h := (ms ! h)\<lparr>visible := True\<rparr>]"
      by (auto simp: releaseQueuedAgentResponses_def split: option.splits)
    ultimately show ?thesis using n by simp
  next
    case False
    with Some have "releaseQueuedAgentResponses ms = ms"
      by (auto simp: releaseQueuedAgentResponses_def split: option.splits)
    with n show ?thesis by simp
  qed
qed

lemma queueOrdered_ensure:
  assumes K: "queueOrdered ms" and e: "ensureAgentMessage now fresh ms e = (u, i)"
  shows "queueOrdered u"
proof (cases "findIndex (\<lambda>m. responseId m = ev_responseId e \<and> role m = Agent) ms")
  case None
  with e have u: "u = ms @ [insertion now fresh ms e]"
    by (simp add: ensureAgentMessage_def)
  have "visible (insertion now fresh ms e) \<Longrightarrow> \<forall>x\<in>set ms. role x = Agent \<longrightarrow> truthy (finished x)"
    by (auto simp: insertion_def list_ex_iff)
  with K show ?thesis unfolding u by (intro queueOrdered_snoc) auto
next
  case (Some k)
  with e K show ?thesis by (simp add: ensureAgentMessage_def)
qed

lemma queueOrdered_handleStreamEvent:
  assumes K: "queueOrdered (messages app)"
  shows "queueOrdered (messages (handleStreamEvent now fresh e app))"
proof (cases "ev_conversationId e \<noteq> conversationId app")
  case True
  with K show ?thesis by (simp add: handleStreamEvent_def)
next
  case False
  obtain u i where ui: "ensureAgentMessage now fresh (messages app) e = (u, i)"
    by (cases "ensureAgentMessage now fresh (messages app) e")
  have Ku: "queueOrdered u" by (rule queueOrdered_ensure[OF K ui])
  have il: "i < length u" by (rule ensureAgentMessage_index[OF ui])
  have Kn: "queueOrdered (u[i := nextMessage e (u ! i)])"
    using Ku il by (intro queueOrdered_update) (simp_all add: nextMessage_keeps)
  show ?thesis
    using False ui Kn queueOrdered_release[OF Kn]
    by (simp add: handleStreamEvent_def Let_def)
qed

lemma queueOrdered_stopStreaming:
  assumes K: "queueOrdered (messages app)"
  shows "queueOrdered (messages (stopStreaming app))"
proof -
  have upd: "queueOrdered (releaseQueuedAgentResponses
      ((messages app)[i := (messages app ! i)
         \<lparr>status := Some Stopped, isStreaming := Some False, finished := Some True\<rparr>]))"
    if "i < length (messages app)" for i
    using K that by (intro queueOrdered_release queueOrdered_update) (simp_all add: truthy_def)
  show ?thesis
    using K upd
    by (auto simp: stopStreaming_def Let_def split: option.splits dest: findIndex_SomeD)
qed

lemma queueOrdered_submitPrompt:
  "queueOrdered (messages app) \<Longrightarrow> queueOrdered (messages (submitPrompt now fresh v app))"
  by (auto simp: submitPrompt_def intro: queueOrdered_snoc)

lemma queueOrdered_act:
  "queueOrdered (messages app) \<Longrightarrow> queueOrdered (messages (act a app))"
  by (cases a)
    (simp_all add: queueOrdered_handleStreamEvent queueOrdered_submitPrompt
      queueOrdered_stopStreaming startNewChat_def)

lemma queueOrdered_run:
  "queueOrdered (messages app) \<Longrightarrow> queueOrdered (messages (run as app))"
  by (induction as arbitrary: app) (simp_all add: queueOrdered_act)

lemma queueOrdered_reachable: "queueOrdered (messages (run as (newApp cid)))"
  by (rule queueOrdered_run) (simp add: newApp_def)

section \<open>C1: one visible unfinished agent message at most\<close>

text \<open>
  C1. Start from the component as it is constructed and let any list of actions happen:
  events of the active or of another conversation, prompts, stops, new chats. After each
  of them (after the first \<open>k\<close>, for every \<open>k\<close>) the message list holds at most one agent
  message with \<open>visible = true\<close> and \<open>finished\<close> not true.
\<close>

theorem single_active_slot:
  "length (filter activeSlot (messages (run (take k as) (newApp cid)))) \<le> 1"
  using queueOrdered_reachable by (rule queueOrdered_count)

text \<open>
  Two responses in flight: after the start of \<open>A\<close> and the start and a token of \<open>B\<close> the
  bound holds, and it is reached.
\<close>

theorem single_active_slot_witness:
  "length (filter activeSlot (messages (run
      (take 3 [Deliver 0 ''m1'' (event ResponseStart ''A''),
               Deliver 1 ''m2'' (event ResponseStart ''B''),
               Deliver 2 ''m3'' ((event ResponseToken ''B'')\<lparr>ev_token := Some ''Hi''\<rparr>)])
      (newApp ''c'')))) \<le> 1
   \<and> map activeSlot (messages (run
      [Deliver 0 ''m1'' (event ResponseStart ''A''),
       Deliver 1 ''m2'' (event ResponseStart ''B''),
       Deliver 2 ''m3'' ((event ResponseToken ''B'')\<lparr>ev_token := Some ''Hi''\<rparr>)]
      (newApp ''c''))) = [True, False]"
proof
  show "length (filter activeSlot (messages (run
      (take 3 [Deliver 0 ''m1'' (event ResponseStart ''A''),
               Deliver 1 ''m2'' (event ResponseStart ''B''),
               Deliver 2 ''m3'' ((event ResponseToken ''B'')\<lparr>ev_token := Some ''Hi''\<rparr>)])
      (newApp ''c'')))) \<le> 1"
    by (rule single_active_slot)
  show "map activeSlot (messages (run
      [Deliver 0 ''m1'' (event ResponseStart ''A''),
       Deliver 1 ''m2'' (event ResponseStart ''B''),
       Deliver 2 ''m3'' ((event ResponseToken ''B'')\<lparr>ev_token := Some ''Hi''\<rparr>)]
      (newApp ''c''))) = [True, False]"
    by code_simp
qed

section \<open>C2: a second response waits for the first\<close>

lemma new_response_hidden:
  assumes K: "queueOrdered (messages app)"
    and c: "ev_conversationId e = conversationId app"
    and new: "agentMessage (ev_responseId e) (messages app) = None"
    and act: "list_ex (\<lambda>m. role m = Agent \<and> \<not> truthy (finished m)) (messages app)"
  shows "\<exists>b. agentMessage (ev_responseId e) (messages (handleStreamEvent now fresh e app)) = Some b
           \<and> \<not> visible b"
proof -
  let ?ms = "messages app"
  let ?ins = "insertion now fresh ?ms e"
  let ?n = "length ?ms"
  let ?next = "nextMessage e ?ins"
  let ?u' = "?ms @ [?next]"
  let ?r = "messages (handleStreamEvent now fresh e app)"
  from new have fi: "findIndex (\<lambda>m. responseId m = ev_responseId e \<and> role m = Agent) ?ms = None"
    by (simp add: agentMessage_def split: option.splits)
  then have ui: "ensureAgentMessage now fresh ?ms e = (?ms @ [?ins], ?n)"
    by (simp add: ensureAgentMessage_def)
  have hid: "\<not> visible ?next" using act by (simp add: nextMessage_keeps insertion_def)
  from handleStreamEvent_target(4)[OF c ui]
  have r: "?r = (if truthy (finished ?next) then releaseQueuedAgentResponses ?u' else ?u')"
    by simp
  from handleStreamEvent_target(1)[OF c ui]
  have am: "agentMessage (ev_responseId e) ?r = Some (?r ! ?n)" by (simp add: agentMessage_def)
  have "\<not> visible (?r ! ?n)"
  proof (cases "truthy (finished ?next)")
    case False
    with r hid show ?thesis by simp
  next
    case True
    from act obtain a where a: "a < ?n" "role (?ms ! a) = Agent" "\<not> truthy (finished (?ms ! a))"
      by (auto simp: list_ex_iff in_set_conv_nth)
    have "queueOrdered (?ms @ [?ins])" by (rule queueOrdered_ensure[OF K ui])
    then have "queueOrdered ((?ms @ [?ins])[?n := ?next])"
      by (intro queueOrdered_update) (simp_all add: nextMessage_keeps)
    then have Ku: "queueOrdered ?u'" by simp
    have "\<not> visible (releaseQueuedAgentResponses ?u' ! ?n)"
      using a hid by (intro release_keeps_hidden[OF Ku, of ?n a]) (simp_all add: nth_append)
    with r True show ?thesis by simp
  qed
  with am show ?thesis by simp
qed

lemma finish_shows_next:
  assumes c: "ev_conversationId e = conversationId app"
    and t: "ev_type e = ResponseEnd \<or> ev_type e = ResponseError \<or> ev_type e = ResponseStop"
    and a: "findIndex (\<lambda>m. responseId m = ev_responseId e \<and> role m = Agent) (messages app) = Some a"
    and b: "a < b" "b < length (messages app)" "role (messages app ! b) = Agent"
      "\<not> visible (messages app ! b)"
    and first: "\<forall>j<b. \<not> (role (messages app ! j) = Agent \<and> \<not> visible (messages app ! j))"
    and near: "\<forall>q. a < q \<and> q < b \<longrightarrow> role (messages app ! q) \<noteq> Agent"
  shows "messages (handleStreamEvent now fresh e app) ! b = (messages app ! b)\<lparr>visible := True\<rparr>"
proof -
  let ?ms = "messages app"
  let ?next = "nextMessage e (?ms ! a)"
  let ?u' = "?ms[a := ?next]"
  from findIndex_SomeD[OF a] have ra: "role (?ms ! a) = Agent" by simp
  have fin: "truthy (finished ?next)"
    using t by (auto simp: nextMessage_def truthy_def)
  from handleStreamEvent_existing[OF c a, of now fresh] fin
  have r: "messages (handleStreamEvent now fresh e app) = releaseQueuedAgentResponses ?u'"
    by simp
  have al: "a < length ?ms" using b by simp
  have same: "\<And>k. k < length ?ms \<Longrightarrow> role (?u' ! k) = role (?ms ! k) \<and> visible (?u' ! k) = visible (?ms ! k)"
    using al by (simp add: nth_list_update nextMessage_keeps)
  have ub: "?u' ! b = ?ms ! b" using b(1) by simp
  have h: "b < length ?u'" "role (?u' ! b) = Agent" "\<not> visible (?u' ! b)"
    using b ub by simp_all
  have f': "\<forall>j<b. \<not> (role (?u' ! j) = Agent \<and> \<not> visible (?u' ! j))"
    using first same b(2) by auto
  have cond: "\<forall>p<b. role (?u' ! p) = Agent \<and> (\<forall>q. p < q \<and> q < b \<longrightarrow> role (?u' ! q) \<noteq> Agent)
              \<longrightarrow> truthy (finished (?u' ! p))"
  proof (intro allI impI)
    fix p assume p: "p < b"
      "role (?u' ! p) = Agent \<and> (\<forall>q. p < q \<and> q < b \<longrightarrow> role (?u' ! q) \<noteq> Agent)"
    have "\<not> p < a"
    proof
      assume "p < a"
      with p(2) b(1) have "role (?u' ! a) \<noteq> Agent" by auto
      with same[OF al] ra show False by simp
    qed
    moreover have "\<not> a < p"
    proof
      assume "a < p"
      with near p(1) have "role (?ms ! p) \<noteq> Agent" by auto
      with p same[of p] b(2) show False by simp
    qed
    ultimately have "p = a" by simp
    with fin al show "truthy (finished (?u' ! p))" by simp
  qed
  from release_first_hidden[OF h f'] cond
  have "releaseQueuedAgentResponses ?u' = ?u'[b := (?u' ! b)\<lparr>visible := True\<rparr>]" by simp
  with r ub b(2) show ?thesis by simp
qed

text \<open>
  C2, as stated, fails. First run: \<open>A\<close>, \<open>X\<close> and \<open>B\<close> are started in this order, so \<open>B\<close> is
  created hidden while \<open>A\<close> is unfinished; then \<open>A\<close> ends. The release shows \<open>X\<close>, the
  first hidden message, and \<open>B\<close> stays hidden: the visibility of \<open>B\<close> has not become true
  once \<open>A\<close> finished. Second run: \<open>A\<close>, \<open>B\<close> and \<open>C\<close> are started and \<open>B\<close> ends. Now
  \<open>C\<close> is the earliest hidden agent message whose nearest agent message before it is
  finished, but the release looks at the first hidden message only, \<open>B\<close> behind the
  unfinished \<open>A\<close>, and shows nothing.
\<close>

theorem queued_response_release_counterexample:
  "map (\<lambda>m. (responseId m, finished m, visible m)) (messages (run
      [Deliver 0 ''m1'' (event ResponseStart ''A''),
       Deliver 1 ''m2'' (event ResponseStart ''X''),
       Deliver 2 ''m3'' (event ResponseStart ''B''),
       Deliver 3 ''m4'' (event ResponseEnd ''A'')] (newApp ''c'')))
     = [(Some ''A'', Some True, True), (Some ''X'', Some False, True),
        (Some ''B'', Some False, False)]
   \<and> map (\<lambda>m. (responseId m, finished m, visible m)) (messages (run
      [Deliver 0 ''m1'' (event ResponseStart ''A''),
       Deliver 1 ''m2'' (event ResponseStart ''B''),
       Deliver 2 ''m3'' (event ResponseStart ''C''),
       Deliver 3 ''m4'' (event ResponseEnd ''B'')] (newApp ''c'')))
     = [(Some ''A'', Some False, True), (Some ''B'', Some True, False),
        (Some ''C'', Some False, False)]"
  by code_simp

text \<open>
  C2, amended. (1) In every state the component reaches in which an unfinished agent
  message exists, the message created by the first event of a new response is hidden when
  that event has been handled. (2) The release looks at the earliest hidden agent message
  only: if there is none the list stays; else that message is shown if the nearest agent
  message before it is absent or finished, and otherwise nothing is shown. (3) When \<open>A\<close>
  finishes by an end, error or stop event, the release runs and shows \<open>B\<close>, provided \<open>B\<close>
  is the earliest hidden agent message and \<open>A\<close> is the nearest agent message before it.
  (4) Every event of the active conversation, of whatever type, is handled so: its message
  is found or created and rewritten by the case of its type; if the message is finished
  after that, the release of (2) runs once on the list, and if it is not, the list is
  left as rewritten and no message is shown or hidden.
\<close>

theorem queued_response_release:
  "(ev_conversationId e = conversationId (run as (newApp cid))
      \<and> agentMessage (ev_responseId e) (messages (run as (newApp cid))) = None
      \<and> list_ex (\<lambda>m. role m = Agent \<and> \<not> truthy (finished m)) (messages (run as (newApp cid)))
     \<longrightarrow> (\<exists>m. agentMessage (ev_responseId e)
                 (messages (handleStreamEvent now fresh e (run as (newApp cid)))) = Some m
              \<and> \<not> visible m))
   \<and> ((\<forall>m\<in>set ms. \<not> (role m = Agent \<and> \<not> visible m))
     \<longrightarrow> releaseQueuedAgentResponses ms = ms)
   \<and> (h < length ms \<and> role (ms ! h) = Agent \<and> \<not> visible (ms ! h)
      \<and> (\<forall>j<h. \<not> (role (ms ! j) = Agent \<and> \<not> visible (ms ! j)))
     \<longrightarrow> releaseQueuedAgentResponses ms =
          (if \<forall>p<h. role (ms ! p) = Agent \<and> (\<forall>q. p < q \<and> q < h \<longrightarrow> role (ms ! q) \<noteq> Agent)
                   \<longrightarrow> truthy (finished (ms ! p))
           then ms[h := (ms ! h)\<lparr>visible := True\<rparr>] else ms))
   \<and> (ev_conversationId f = conversationId app
      \<and> (ev_type f = ResponseEnd \<or> ev_type f = ResponseError \<or> ev_type f = ResponseStop)
      \<and> findIndex (\<lambda>m. responseId m = ev_responseId f \<and> role m = Agent) (messages app) = Some a
      \<and> a < b \<and> b < length (messages app)
      \<and> role (messages app ! b) = Agent \<and> \<not> visible (messages app ! b)
      \<and> (\<forall>j<b. \<not> (role (messages app ! j) = Agent \<and> \<not> visible (messages app ! j)))
      \<and> (\<forall>q. a < q \<and> q < b \<longrightarrow> role (messages app ! q) \<noteq> Agent)
     \<longrightarrow> messages (handleStreamEvent now' fresh' f app) ! b
          = (messages app ! b)\<lparr>visible := True\<rparr>)
   \<and> (ev_conversationId g = conversationId store
      \<and> ensureAgentMessage t fr (messages store) g = (u, i)
     \<longrightarrow> messages (handleStreamEvent t fr g store) =
          (if truthy (finished (nextMessage g (u ! i)))
           then releaseQueuedAgentResponses (u[i := nextMessage g (u ! i)])
           else u[i := nextMessage g (u ! i)]))"
proof (intro conjI)
  show "ev_conversationId e = conversationId (run as (newApp cid))
      \<and> agentMessage (ev_responseId e) (messages (run as (newApp cid))) = None
      \<and> list_ex (\<lambda>m. role m = Agent \<and> \<not> truthy (finished m)) (messages (run as (newApp cid)))
     \<longrightarrow> (\<exists>m. agentMessage (ev_responseId e)
                 (messages (handleStreamEvent now fresh e (run as (newApp cid)))) = Some m
              \<and> \<not> visible m)"
    using new_response_hidden[OF queueOrdered_reachable, of e as cid now fresh] by blast
  show "(\<forall>m\<in>set ms. \<not> (role m = Agent \<and> \<not> visible m))
     \<longrightarrow> releaseQueuedAgentResponses ms = ms"
    using release_none_hidden[of ms] by blast
  show "h < length ms \<and> role (ms ! h) = Agent \<and> \<not> visible (ms ! h)
      \<and> (\<forall>j<h. \<not> (role (ms ! j) = Agent \<and> \<not> visible (ms ! j)))
     \<longrightarrow> releaseQueuedAgentResponses ms =
          (if \<forall>p<h. role (ms ! p) = Agent \<and> (\<forall>q. p < q \<and> q < h \<longrightarrow> role (ms ! q) \<noteq> Agent)
                   \<longrightarrow> truthy (finished (ms ! p))
           then ms[h := (ms ! h)\<lparr>visible := True\<rparr>] else ms)"
    using release_first_hidden[of h ms] by blast
  show "ev_conversationId f = conversationId app
      \<and> (ev_type f = ResponseEnd \<or> ev_type f = ResponseError \<or> ev_type f = ResponseStop)
      \<and> findIndex (\<lambda>m. responseId m = ev_responseId f \<and> role m = Agent) (messages app) = Some a
      \<and> a < b \<and> b < length (messages app)
      \<and> role (messages app ! b) = Agent \<and> \<not> visible (messages app ! b)
      \<and> (\<forall>j<b. \<not> (role (messages app ! j) = Agent \<and> \<not> visible (messages app ! j)))
      \<and> (\<forall>q. a < q \<and> q < b \<longrightarrow> role (messages app ! q) \<noteq> Agent)
     \<longrightarrow> messages (handleStreamEvent now' fresh' f app) ! b
          = (messages app ! b)\<lparr>visible := True\<rparr>"
    using finish_shows_next[of f app a b now' fresh'] by blast
  show "ev_conversationId g = conversationId store
      \<and> ensureAgentMessage t fr (messages store) g = (u, i)
     \<longrightarrow> messages (handleStreamEvent t fr g store) =
          (if truthy (finished (nextMessage g (u ! i)))
           then releaseQueuedAgentResponses (u[i := nextMessage g (u ! i)])
           else u[i := nextMessage g (u ! i)])"
    using handleStreamEvent_target(4)[of g store t fr u i] by blast
qed

text \<open>
  The two responses of the scenario: \<open>B\<close> is created hidden while \<open>A\<close> streams, a release
  at that point shows nothing, and the end of \<open>A\<close> shows \<open>B\<close>. And three responses, of
  which \<open>B\<close> ended while hidden and \<open>A\<close> ended next: a status event for the finished \<open>A\<close>
  is no end, error or stop, yet it leaves its message finished, so the release runs and
  shows \<open>C\<close>; a token for the unfinished \<open>C\<close> before that shows nothing.
\<close>

theorem queued_response_release_witness:
  "(\<exists>m. agentMessage (Some ''B'')
          (messages (handleStreamEvent 1 ''m2'' (event ResponseStart ''B'')
             (run [Deliver 0 ''m1'' (event ResponseStart ''A'')] (newApp ''c'')))) = Some m
        \<and> \<not> visible m)
   \<and> releaseQueuedAgentResponses (messages (run
          [Deliver 0 ''m1'' (event ResponseStart ''A''),
           Deliver 1 ''m2'' (event ResponseStart ''B'')] (newApp ''c'')))
      = messages (run
          [Deliver 0 ''m1'' (event ResponseStart ''A''),
           Deliver 1 ''m2'' (event ResponseStart ''B'')] (newApp ''c''))
   \<and> visible (messages (handleStreamEvent 2 ''m3'' (event ResponseEnd ''A'')
        (run [Deliver 0 ''m1'' (event ResponseStart ''A''),
              Deliver 1 ''m2'' (event ResponseStart ''B'')] (newApp ''c''))) ! 1)
   \<and> map visible (messages (handleStreamEvent 5 ''m6''
        ((event ResponseStatus ''A'')\<lparr>ev_status := Some Completed\<rparr>)
        (run [Deliver 0 ''m1'' (event ResponseStart ''A''),
              Deliver 1 ''m2'' (event ResponseStart ''B''),
              Deliver 2 ''m3'' (event ResponseStart ''C''),
              Deliver 3 ''m4'' (event ResponseEnd ''B''),
              Deliver 4 ''m5'' (event ResponseEnd ''A'')] (newApp ''c'')))) = [True, True, True]
   \<and> map visible (messages (handleStreamEvent 5 ''m6''
        ((event ResponseToken ''C'')\<lparr>ev_token := Some ''Hi''\<rparr>)
        (run [Deliver 0 ''m1'' (event ResponseStart ''A''),
              Deliver 1 ''m2'' (event ResponseStart ''B''),
              Deliver 2 ''m3'' (event ResponseStart ''C''),
              Deliver 3 ''m4'' (event ResponseEnd ''B''),
              Deliver 4 ''m5'' (event ResponseEnd ''A'')] (newApp ''c'')))) = [True, True, False]"
proof (intro conjI)
  let ?eB = "event ResponseStart ''B''"
  let ?eA = "event ResponseEnd ''A''"
  let ?as1 = "[Deliver 0 ''m1'' (event ResponseStart ''A'')]"
  let ?app2 = "run [Deliver 0 ''m1'' (event ResponseStart ''A''),
                    Deliver 1 ''m2'' (event ResponseStart ''B'')] (newApp ''c'')"
  let ?mA = "\<lparr> msg_id = ''A'', role = Agent, content = [], createdAt = 0,
       responseId = Some ''A'', status = Some Thinking, tokens = Some [],
       isStreaming = Some True, finished = Some False, visible = True \<rparr>"
  let ?mB = "\<lparr> msg_id = ''B'', role = Agent, content = [], createdAt = 1,
       responseId = Some ''B'', status = Some Thinking, tokens = Some [],
       isStreaming = Some True, finished = Some False, visible = False \<rparr>"
  have rB: "ev_responseId ?eB = Some ''B''" by (simp add: event_def)
  have h1: "ev_conversationId ?eB = conversationId (run ?as1 (newApp ''c''))
      \<and> agentMessage (ev_responseId ?eB) (messages (run ?as1 (newApp ''c''))) = None
      \<and> list_ex (\<lambda>m. role m = Agent \<and> \<not> truthy (finished m)) (messages (run ?as1 (newApp ''c'')))"
    by code_simp
  note part1 = queued_response_release[of ?eB ?as1 "''c''" 1 "''m2''", THEN conjunct1]
  show "\<exists>m. agentMessage (Some ''B'')
          (messages (handleStreamEvent 1 ''m2'' ?eB (run ?as1 (newApp ''c'')))) = Some m
        \<and> \<not> visible m"
    using mp[OF part1 h1] unfolding rB .
  have ms: "messages ?app2 = [?mA, ?mB]" by code_simp
  have h3: "1 < length (messages ?app2) \<and> role (messages ?app2 ! 1) = Agent
      \<and> \<not> visible (messages ?app2 ! 1)
      \<and> (\<forall>j<1. \<not> (role (messages ?app2 ! j) = Agent \<and> \<not> visible (messages ?app2 ! j)))"
    unfolding ms by simp
  have blocked: "\<not> (\<forall>p<1. role (messages ?app2 ! p) = Agent
        \<and> (\<forall>q. p < q \<and> q < 1 \<longrightarrow> role (messages ?app2 ! q) \<noteq> Agent)
        \<longrightarrow> truthy (finished (messages ?app2 ! p)))"
    unfolding ms by (simp add: truthy_def)
  note part3 = queued_response_release[of _ _ _ _ _ "messages ?app2" 1,
      THEN conjunct2, THEN conjunct2, THEN conjunct1]
  have eq: "releaseQueuedAgentResponses (messages ?app2) =
      (if \<forall>p<1. role (messages ?app2 ! p) = Agent
              \<and> (\<forall>q. p < q \<and> q < 1 \<longrightarrow> role (messages ?app2 ! q) \<noteq> Agent)
              \<longrightarrow> truthy (finished (messages ?app2 ! p))
       then (messages ?app2)[1 := (messages ?app2 ! 1)\<lparr>visible := True\<rparr>]
       else messages ?app2)"
    by (rule mp[OF part3 h3])
  show "releaseQueuedAgentResponses (messages ?app2) = messages ?app2"
    unfolding eq by (rule if_not_P[OF blocked])
  have h4: "ev_conversationId ?eA = conversationId ?app2
      \<and> (ev_type ?eA = ResponseEnd \<or> ev_type ?eA = ResponseError \<or> ev_type ?eA = ResponseStop)
      \<and> findIndex (\<lambda>m. responseId m = ev_responseId ?eA \<and> role m = Agent) (messages ?app2) = Some 0
      \<and> 0 < (1::nat) \<and> 1 < length (messages ?app2)
      \<and> role (messages ?app2 ! 1) = Agent \<and> \<not> visible (messages ?app2 ! 1)
      \<and> (\<forall>j<1. \<not> (role (messages ?app2 ! j) = Agent \<and> \<not> visible (messages ?app2 ! j)))
      \<and> (\<forall>q. 0 < q \<and> q < 1 \<longrightarrow> role (messages ?app2 ! q) \<noteq> Agent)"
    unfolding ms by (auto simp: event_def handleStreamEvent_conversationId newApp_def)
  note part4 = queued_response_release[of _ _ _ _ _ _ _ ?eA ?app2 0 1 2 "''m3''",
      THEN conjunct2, THEN conjunct2, THEN conjunct2, THEN conjunct1]
  have "messages (handleStreamEvent 2 ''m3'' ?eA ?app2) ! 1
          = (messages ?app2 ! 1)\<lparr>visible := True\<rparr>"
    by (rule mp[OF part4 h4])
  then show "visible (messages (handleStreamEvent 2 ''m3'' ?eA ?app2) ! 1)" by simp
  let ?app3 = "run [Deliver 0 ''m1'' (event ResponseStart ''A''),
              Deliver 1 ''m2'' (event ResponseStart ''B''),
              Deliver 2 ''m3'' (event ResponseStart ''C''),
              Deliver 3 ''m4'' (event ResponseEnd ''B''),
              Deliver 4 ''m5'' (event ResponseEnd ''A'')] (newApp ''c'')"
  let ?st = "(event ResponseStatus ''A'')\<lparr>ev_status := Some Completed\<rparr>"
  let ?tk = "(event ResponseToken ''C'')\<lparr>ev_token := Some ''Hi''\<rparr>"
  let ?nA = "\<lparr> msg_id = ''A'', role = Agent, content = [], createdAt = 0,
       responseId = Some ''A'', status = Some Completed, tokens = Some [],
       isStreaming = Some False, finished = Some True, visible = True \<rparr>"
  let ?nB = "\<lparr> msg_id = ''B'', role = Agent, content = [], createdAt = 1,
       responseId = Some ''B'', status = Some Completed, tokens = Some [],
       isStreaming = Some False, finished = Some True, visible = True \<rparr>"
  let ?nC = "\<lparr> msg_id = ''C'', role = Agent, content = [], createdAt = 2,
       responseId = Some ''C'', status = Some Thinking, tokens = Some [],
       isStreaming = Some True, finished = Some False, visible = False \<rparr>"
  have ms3: "messages ?app3 = [?nA, ?nB, ?nC]" by code_simp
  have c3: "conversationId ?app3 = ''c''" by code_simp
  have h5: "ev_conversationId ?st = conversationId ?app3
      \<and> ensureAgentMessage 5 ''m6'' (messages ?app3) ?st = ([?nA, ?nB, ?nC], 0)"
    unfolding ms3 c3 by (simp add: event_def ensureAgentMessage_def)
  note part5 = queued_response_release[of _ _ _ _ _ _ _ _ _ _ _ _ _ ?st ?app3 5 "''m6''"
      "[?nA, ?nB, ?nC]" 0,
      THEN conjunct2, THEN conjunct2, THEN conjunct2, THEN conjunct2]
  show "map visible (messages (handleStreamEvent 5 ''m6'' ?st ?app3)) = [True, True, True]"
    unfolding mp[OF part5 h5]
    by (simp add: event_def nextMessage_def truthy_def releaseQueuedAgentResponses_def)
  have h6: "ev_conversationId ?tk = conversationId ?app3
      \<and> ensureAgentMessage 5 ''m6'' (messages ?app3) ?tk = ([?nA, ?nB, ?nC], 2)"
    unfolding ms3 c3 by (simp add: event_def ensureAgentMessage_def)
  note part6 = queued_response_release[of _ _ _ _ _ _ _ _ _ _ _ _ _ ?tk ?app3 5 "''m6''"
      "[?nA, ?nB, ?nC]" 2,
      THEN conjunct2, THEN conjunct2, THEN conjunct2, THEN conjunct2]
  show "map visible (messages (handleStreamEvent 5 ''m6'' ?tk ?app3)) = [True, True, False]"
    unfolding mp[OF part6 h6]
    by (simp add: event_def nextMessage_def truthy_def)
qed

section \<open>C3: start, tokens, end\<close>

lemma tokens_run:
  assumes "conversationId app = cid" and "agentMessage rid (messages app) = Some m"
    and "\<forall>x\<in>set toks. ev_type (snd (snd x)) = ResponseToken
            \<and> ev_responseId (snd (snd x)) = rid \<and> ev_conversationId (snd (snd x)) = cid"
  shows "\<exists>m'. agentMessage rid
            (messages (run (map (\<lambda>(now, fresh, e). Deliver now fresh e) toks) app)) = Some m'
         \<and> content m' = content m
              @ concat (map (\<lambda>(now, fresh, e). case ev_token e of Some t \<Rightarrow> t | None \<Rightarrow> []) toks)
         \<and> conversationId (run (map (\<lambda>(now, fresh, e). Deliver now fresh e) toks) app) = cid"
  using assms
proof (induction toks arbitrary: app m)
  case Nil
  then show ?case by simp
next
  case (Cons x toks)
  obtain now fresh e where x: "x = (now, fresh, e)" by (cases x)
  with Cons.prems have e: "ev_type e = ResponseToken" "ev_responseId e = rid"
    "ev_conversationId e = conversationId app" by auto
  let ?app1 = "handleStreamEvent now fresh e app"
  from handleStreamEvent_message[OF e(3), of now fresh] Cons.prems(2) e(2)
  obtain m1 where m1: "agentMessage rid (messages ?app1) = Some m1"
    "m1 = nextMessage e m \<or> m1 = (nextMessage e m)\<lparr>visible := True\<rparr>" by auto
  from m1(2) e(1) have c1: "content m1 = content m @ (case ev_token e of Some t \<Rightarrow> t | None \<Rightarrow> [])"
    by (auto simp: nextMessage_def)
  have "conversationId ?app1 = cid"
    using Cons.prems(1) by (simp add: handleStreamEvent_conversationId)
  from Cons.IH[OF this m1(1)] Cons.prems(3)
  obtain m' where "agentMessage rid
            (messages (run (map (\<lambda>(now, fresh, e). Deliver now fresh e) toks) ?app1)) = Some m'"
    "content m' = content m1
       @ concat (map (\<lambda>(now, fresh, e). case ev_token e of Some t \<Rightarrow> t | None \<Rightarrow> []) toks)"
    "conversationId (run (map (\<lambda>(now, fresh, e). Deliver now fresh e) toks) ?app1) = cid"
    by auto
  with c1 x show ?case by simp
qed

text \<open>
  C3, as stated, fails. \<^verbatim>\<open>ensureAgentMessage\<close> creates the message with
  \<^verbatim>\<open>content: event.content ?? ''\<close>, whatever the type of the event. A \<^verbatim>\<open>response-start\<close>
  that carries the content \<open>X\<close>, followed by the token \<open>a\<close> and an end without content,
  leaves the content \<open>Xa\<close>, not the concatenation \<open>a\<close> of the tokens.
\<close>

theorem start_tokens_end_counterexample:
  "map content (messages (run
      [Deliver 0 ''m1'' ((event ResponseStart ''A'')\<lparr>ev_content := Some ''X''\<rparr>),
       Deliver 1 ''m2'' ((event ResponseToken ''A'')\<lparr>ev_token := Some ''a''\<rparr>),
       Deliver 2 ''m3'' (event ResponseEnd ''A'')]
      (newApp ''c''))) = [''Xa'']"
  by code_simp

text \<open>
  C3, amended. Let a \<^verbatim>\<open>response-start\<close>, any number of \<^verbatim>\<open>response-token\<close> events and a
  \<^verbatim>\<open>response-end\<close>, all of one response id and of the active conversation, be delivered in
  this order. The message of the response then has \<open>finished = true\<close> and
  \<open>isStreaming = false\<close>, and its content is the content field of the end event if
  present; else it is the content the message had at the start (for a message the start
  event creates, the content field of the start event, empty if absent; for a message that
  existed, its content) followed by the token fields in the order of arrival, an absent
  token counting as empty.
\<close>

theorem start_tokens_end:
  assumes s: "ev_type s = ResponseStart" "ev_responseId s = rid"
      "ev_conversationId s = conversationId app"
    and toks: "\<forall>x\<in>set toks. ev_type (snd (snd x)) = ResponseToken
        \<and> ev_responseId (snd (snd x)) = rid \<and> ev_conversationId (snd (snd x)) = conversationId app"
    and f: "ev_type f = ResponseEnd" "ev_responseId f = rid"
      "ev_conversationId f = conversationId app"
  shows "\<exists>m. agentMessage rid (messages (run
            (Deliver now0 fresh0 s # map (\<lambda>(now, fresh, e). Deliver now fresh e) toks
               @ [Deliver now1 fresh1 f]) app)) = Some m
      \<and> finished m = Some True \<and> isStreaming m = Some False
      \<and> content m =
          (case ev_content f of
             Some c \<Rightarrow> c
           | None \<Rightarrow>
               (case agentMessage rid (messages app) of
                  Some m0 \<Rightarrow> content m0
                | None \<Rightarrow> (case ev_content s of Some c \<Rightarrow> c | None \<Rightarrow> []))
               @ concat (map (\<lambda>(now, fresh, e). case ev_token e of Some t \<Rightarrow> t | None \<Rightarrow> []) toks))"
proof -
  let ?D = "map (\<lambda>(now, fresh, e). Deliver now fresh e) toks"
  let ?prior = "case agentMessage rid (messages app) of
                  Some m0 \<Rightarrow> content m0
                | None \<Rightarrow> (case ev_content s of Some c \<Rightarrow> c | None \<Rightarrow> [])"
  let ?app1 = "handleStreamEvent now0 fresh0 s app"
  let ?app2 = "run ?D ?app1"
  from handleStreamEvent_message[OF s(3), of now0 fresh0] s(2)
  obtain m1 where m1: "agentMessage rid (messages ?app1) = Some m1"
    "m1 = nextMessage s (case agentMessage rid (messages app) of
                    Some m \<Rightarrow> m | None \<Rightarrow> insertion now0 fresh0 (messages app) s)
     \<or> m1 = (nextMessage s (case agentMessage rid (messages app) of
                    Some m \<Rightarrow> m | None \<Rightarrow> insertion now0 fresh0 (messages app) s))\<lparr>visible := True\<rparr>"
    by auto
  from m1(2) s(1) have c1: "content m1 = ?prior"
    by (auto simp: nextMessage_def insertion_def split: option.splits)
  have "conversationId ?app1 = conversationId app"
    by (simp add: handleStreamEvent_conversationId)
  from tokens_run[OF this m1(1) toks]
  obtain m2 where m2: "agentMessage rid (messages ?app2) = Some m2"
    "content m2 = content m1
       @ concat (map (\<lambda>(now, fresh, e). case ev_token e of Some t \<Rightarrow> t | None \<Rightarrow> []) toks)"
    "conversationId ?app2 = conversationId app" by auto
  from f(3) m2(3) have "ev_conversationId f = conversationId ?app2" by simp
  from handleStreamEvent_message[OF this, of now1 fresh1] m2(1) f(2)
  obtain m3 where m3: "agentMessage rid (messages (handleStreamEvent now1 fresh1 f ?app2)) = Some m3"
    "m3 = nextMessage f m2 \<or> m3 = (nextMessage f m2)\<lparr>visible := True\<rparr>" by auto
  from m3(2) f(1) have "finished m3 = Some True" "isStreaming m3 = Some False"
    "content m3 = (case ev_content f of Some c \<Rightarrow> c | None \<Rightarrow> content m2)"
    by (auto simp: nextMessage_def)
  moreover have "run (Deliver now0 fresh0 s # ?D @ [Deliver now1 fresh1 f]) app
      = handleStreamEvent now1 fresh1 f ?app2"
    by (simp add: run_append)
  ultimately show ?thesis using m3(1) m2(2) c1 by (auto split: option.splits)
qed

text \<open>
  A new response with the tokens \<open>Hi\<close> and \<open> there\<close> and an end without content.
\<close>

theorem start_tokens_end_witness:
  "\<exists>m. agentMessage (Some ''r1'') (messages (run
        [Deliver 0 ''m1'' (event ResponseStart ''r1''),
         Deliver 1 ''m2'' ((event ResponseToken ''r1'')\<lparr>ev_token := Some ''Hi''\<rparr>),
         Deliver 2 ''m3'' ((event ResponseToken ''r1'')\<lparr>ev_token := Some '' there''\<rparr>),
         Deliver 3 ''m4'' (event ResponseEnd ''r1'')]
        (newApp ''c''))) = Some m
      \<and> finished m = Some True \<and> isStreaming m = Some False \<and> content m = ''Hi there''"
proof -
  let ?s = "event ResponseStart ''r1''"
  let ?toks = "[(1, ''m2'', (event ResponseToken ''r1'')\<lparr>ev_token := Some ''Hi''\<rparr>),
               (2, ''m3'', (event ResponseToken ''r1'')\<lparr>ev_token := Some '' there''\<rparr>)]"
  let ?f = "event ResponseEnd ''r1''"
  have s: "ev_type ?s = ResponseStart" "ev_responseId ?s = Some ''r1''"
    "ev_conversationId ?s = conversationId (newApp ''c'')"
    by (simp_all add: event_def newApp_def)
  have toks: "\<forall>x\<in>set ?toks. ev_type (snd (snd x)) = ResponseToken
        \<and> ev_responseId (snd (snd x)) = Some ''r1''
        \<and> ev_conversationId (snd (snd x)) = conversationId (newApp ''c'')"
    by (simp add: event_def newApp_def)
  have f: "ev_type ?f = ResponseEnd" "ev_responseId ?f = Some ''r1''"
    "ev_conversationId ?f = conversationId (newApp ''c'')"
    by (simp_all add: event_def newApp_def)
  have prior: "agentMessage (Some ''r1'') (messages (newApp ''c'')) = None"
    by (simp add: agentMessage_def newApp_def)
  have c: "ev_content ?f = None" "ev_content ?s = None" by (simp_all add: event_def)
  from start_tokens_end[OF s toks f, of 0 "''m1''" 3 "''m4''"]
  show ?thesis unfolding prior c by simp
qed

section \<open>C4: the streaming flag\<close>

lemma streamingConsistent_visible [simp]:
  "streamingConsistent (m\<lparr>visible := v\<rparr>) = streamingConsistent m"
  by (simp add: streamingConsistent_def)

lemma streamingConsistent_insertion:
  "streamingConsistent (insertion now fresh ms e)" "\<not> truthy (finished (insertion now fresh ms e))"
  by (auto simp: streamingConsistent_def insertion_def truthy_def)

lemma streamingConsistent_nextMessage:
  assumes "streamingConsistent t" and "\<not> (truthy (finished t) \<and> setsStreaming e)"
    and "ev_type e = ResponseStart \<Longrightarrow>
           ev_status e = None \<or> ev_status e = Some Thinking \<or> ev_status e = Some Streaming"
  shows "streamingConsistent (nextMessage e t)"
proof (cases "truthy (finished t)")
  case False
  with assms(1,3) show ?thesis
    by (cases "ev_type e") (auto simp: streamingConsistent_def nextMessage_def truthy_def)
next
  case True
  with assms(2) have "\<not> setsStreaming e" by simp
  with True assms(1) show ?thesis
    by (cases "ev_type e")
      (auto simp: streamingConsistent_def nextMessage_def truthy_def setsStreaming_def)
qed

lemma streamingConsistent_release:
  assumes "list_all streamingConsistent ms"
  shows "list_all streamingConsistent (releaseQueuedAgentResponses ms)"
  unfolding list_all_length
proof (intro allI impI)
  fix k assume "k < length (releaseQueuedAgentResponses ms)"
  then have k: "k < length ms" by simp
  with assms have "streamingConsistent (ms ! k)" by (simp add: list_all_length)
  with release_nth[OF k] show "streamingConsistent (releaseQueuedAgentResponses ms ! k)"
    by (elim disjE) simp_all
qed

lemma streamingConsistent_handleStreamEvent:
  assumes ok: "inOrder e app" and all: "list_all streamingConsistent (messages app)"
  shows "list_all streamingConsistent (messages (handleStreamEvent now fresh e app))"
proof (cases "ev_conversationId e = conversationId app")
  case False
  with all show ?thesis by (simp add: handleStreamEvent_def)
next
  case True
  let ?P = "\<lambda>m. responseId m = ev_responseId e \<and> role m = Agent"
  obtain u i where ui: "ensureAgentMessage now fresh (messages app) e = (u, i)"
    by (cases "ensureAgentMessage now fresh (messages app) e")
  have il: "i < length u" by (rule ensureAgentMessage_index[OF ui])
  have u: "list_all streamingConsistent u
      \<and> \<not> (truthy (finished (u ! i)) \<and> setsStreaming e)"
  proof (cases "findIndex ?P (messages app)")
    case None
    with ui have "u = messages app @ [insertion now fresh (messages app) e]"
      "i = length (messages app)" by (simp_all add: ensureAgentMessage_def)
    with all show ?thesis by (simp add: streamingConsistent_insertion)
  next
    case (Some k)
    with ui have "u = messages app" "i = k" by (simp_all add: ensureAgentMessage_def)
    moreover from Some have "agentMessage (ev_responseId e) (messages app) = Some (messages app ! k)"
      by (simp add: agentMessage_def)
    ultimately show ?thesis using ok all True by (simp add: inOrder_def)
  qed
  then have "streamingConsistent (u ! i)" using il by (simp add: list_all_length)
  with u ok True have "streamingConsistent (nextMessage e (u ! i))"
    by (intro streamingConsistent_nextMessage) (auto simp: inOrder_def split: if_splits)
  with u have "list_all streamingConsistent (u[i := nextMessage e (u ! i)])"
    by (intro list_all_update) simp_all
  then show ?thesis
    unfolding handleStreamEvent_target(4)[OF True ui]
    by (simp add: streamingConsistent_release)
qed

lemma streamingConsistent_stopStreaming:
  assumes "list_all streamingConsistent (messages app)"
  shows "list_all streamingConsistent (messages (stopStreaming app))"
proof -
  have "list_all streamingConsistent (releaseQueuedAgentResponses
      ((messages app)[i := (messages app ! i)
         \<lparr>status := Some Stopped, isStreaming := Some False, finished := Some True\<rparr>]))" for i
    using assms
    by (intro streamingConsistent_release list_all_update)
      (simp_all add: streamingConsistent_def truthy_def)
  with assms show ?thesis
    by (simp add: stopStreaming_def Let_def split: option.splits)
qed

lemma streamingConsistent_submitPrompt:
  "list_all streamingConsistent (messages app) \<Longrightarrow>
   list_all streamingConsistent (messages (submitPrompt now fresh v app))"
  by (simp add: submitPrompt_def streamingConsistent_def truthy_def)

lemma streamingConsistent_run:
  "orderly as app \<Longrightarrow> list_all streamingConsistent (messages app) \<Longrightarrow>
   list_all streamingConsistent (messages (run as app))"
proof (induction as arbitrary: app)
  case Nil
  then show ?case by simp
next
  case (Cons a as)
  show ?case
  proof (cases a)
    case (Deliver now fresh e)
    with Cons.prems have "inOrder e app" "orderly as (handleStreamEvent now fresh e app)"
      by simp_all
    with Cons.IH[of "handleStreamEvent now fresh e app"] Cons.prems(2) Deliver
    show ?thesis by (simp add: streamingConsistent_handleStreamEvent)
  next
    case (Submit now fresh v)
    with Cons.prems Cons.IH[of "submitPrompt now fresh v app"]
    show ?thesis by (simp add: streamingConsistent_submitPrompt)
  next
    case Stop
    with Cons.prems Cons.IH[of "stopStreaming app"]
    show ?thesis by (simp add: streamingConsistent_stopStreaming)
  next
    case (NewChat cid)
    with Cons.prems Cons.IH[of "startNewChat cid app"]
    show ?thesis by (simp add: startNewChat_def)
  qed
qed

lemma streaming_after_finish:
  assumes c: "ev_conversationId e = conversationId app" and t: "setsStreaming e"
    and m: "agentMessage (ev_responseId e) (messages app) = Some m" and f: "truthy (finished m)"
  shows "\<exists>m'. agentMessage (ev_responseId e) (messages (handleStreamEvent now fresh e app)) = Some m'
           \<and> truthy (isStreaming m') \<and> truthy (finished m')
           \<and> status m' =
               (if ev_type e = ResponseToken then Some Streaming
                else if ev_type e = ResponseStart
                  then Some (case ev_status e of Some s \<Rightarrow> s | None \<Rightarrow> Thinking)
                  else ev_status e)"
proof -
  from m obtain i where i: "findIndex (\<lambda>m. responseId m = ev_responseId e \<and> role m = Agent)
      (messages app) = Some i" "m = messages app ! i"
    by (auto simp: agentMessage_def split: option.splits)
  then have ui: "ensureAgentMessage now fresh (messages app) e = (messages app, i)"
    by (simp add: ensureAgentMessage_def)
  let ?r = "messages (handleStreamEvent now fresh e app)"
  let ?st = "if ev_type e = ResponseToken then Some Streaming
                else if ev_type e = ResponseStart
                  then Some (case ev_status e of Some s \<Rightarrow> s | None \<Rightarrow> Thinking)
                  else ev_status e"
  from handleStreamEvent_target(1)[OF c ui]
  have a: "agentMessage (ev_responseId e) ?r = Some (?r ! i)"
    by (simp add: agentMessage_def)
  have n: "truthy (isStreaming (nextMessage e m))" "truthy (finished (nextMessage e m))"
    "status (nextMessage e m) = ?st"
    using t f by (auto simp: nextMessage_def truthy_def setsStreaming_def)
  from handleStreamEvent_target(3)[OF c ui] n i(2)
  have "truthy (isStreaming (?r ! i)) \<and> truthy (finished (?r ! i)) \<and> status (?r ! i) = ?st"
    by (elim disjE) simp_all
  with a show ?thesis by simp
qed

text \<open>
  C4, as stated, fails. The response \<open>A\<close> is started and stopped, then a stray token of \<open>A\<close>
  arrives. The token is applied to the finished message: it sets \<open>isStreaming = true\<close> and
  the status \<open>streaming\<close>, and \<open>finished\<close> stays true.
\<close>

theorem streaming_flag_counterexample:
  "map (\<lambda>m. (status m, isStreaming m, finished m)) (messages (run
      [Deliver 0 ''m1'' (event ResponseStart ''A''),
       Deliver 1 ''m2'' (event ResponseStop ''A''),
       Deliver 2 ''m3'' ((event ResponseToken ''A'')\<lparr>ev_token := Some ''x''\<rparr>)]
      (newApp ''c''))) = [(Some Streaming, Some True, Some True)]"
  by code_simp

text \<open>
  C4, amended. In every state reached from the constructed component by a run in which no
  \<^verbatim>\<open>response-start\<close>, no \<^verbatim>\<open>response-token\<close> and no \<^verbatim>\<open>response-status\<close> with the status
  \<open>thinking\<close> or \<open>streaming\<close> arrives for a message that is already finished, and no
  \<^verbatim>\<open>response-start\<close> carries a status other than \<open>thinking\<close> or \<open>streaming\<close>, \<open>isStreaming\<close> is
  true only if the status is \<open>thinking\<close> or \<open>streaming\<close> and \<open>finished\<close> is not true. Every
  other event may arrive for a finished message, and the user's actions and the events of
  other conversations are free. An event for a finished message is applied all the same:
  after one of the three kinds of event named above for a finished message of the active
  conversation, that message has \<open>isStreaming = true\<close> and \<open>finished = true\<close>, with the
  status \<open>streaming\<close> after a token, the status of the event (\<open>thinking\<close> if it has none)
  after a start, and the status of the event after a status event.
\<close>

theorem streaming_flag_consistent:
  "(orderly as (newApp cid) \<longrightarrow>
      list_all streamingConsistent (messages (run as (newApp cid))))
   \<and> (ev_conversationId e = conversationId app \<and> setsStreaming e
        \<and> agentMessage (ev_responseId e) (messages app) = Some m \<and> truthy (finished m)
      \<longrightarrow> (\<exists>m'. agentMessage (ev_responseId e) (messages (handleStreamEvent now fresh e app)) = Some m'
             \<and> truthy (isStreaming m') \<and> truthy (finished m')
             \<and> status m' =
                 (if ev_type e = ResponseToken then Some Streaming
                  else if ev_type e = ResponseStart
                    then Some (case ev_status e of Some s \<Rightarrow> s | None \<Rightarrow> Thinking)
                    else ev_status e)))"
proof (intro conjI impI)
  assume "orderly as (newApp cid)"
  then show "list_all streamingConsistent (messages (run as (newApp cid)))"
    by (rule streamingConsistent_run) (simp add: newApp_def)
next
  assume "ev_conversationId e = conversationId app \<and> setsStreaming e
        \<and> agentMessage (ev_responseId e) (messages app) = Some m \<and> truthy (finished m)"
  then show "\<exists>m'. agentMessage (ev_responseId e) (messages (handleStreamEvent now fresh e app)) = Some m'
             \<and> truthy (isStreaming m') \<and> truthy (finished m')
             \<and> status m' =
                 (if ev_type e = ResponseToken then Some Streaming
                  else if ev_type e = ResponseStart
                    then Some (case ev_status e of Some s \<Rightarrow> s | None \<Rightarrow> Thinking)
                    else ev_status e)"
    by (elim conjE) (rule streaming_after_finish, assumption+)
qed

text \<open>
  A run in order: \<open>A\<close> starts and streams while \<open>B\<close> waits; the user stops \<open>B\<close> and the
  backend confirms with a \<^verbatim>\<open>response-stop\<close> for the finished \<open>B\<close>; \<open>A\<close> ends and a status
  \<open>completed\<close> for the finished \<open>A\<close> follows. And the token after the stop of \<open>A\<close>.
\<close>

theorem streaming_flag_consistent_witness:
  "orderly
      [Deliver 0 ''m1'' (event ResponseStart ''A''),
       Deliver 1 ''m2'' ((event ResponseToken ''A'')\<lparr>ev_token := Some ''Hi''\<rparr>),
       Deliver 2 ''m3'' (event ResponseStart ''B''),
       Stop,
       Deliver 3 ''m4'' (event ResponseStop ''B''),
       Deliver 4 ''m5'' (event ResponseEnd ''A''),
       Deliver 5 ''m6'' ((event ResponseStatus ''A'')\<lparr>ev_status := Some Completed\<rparr>)]
      (newApp ''c'')
   \<and> list_all streamingConsistent (messages (run
      [Deliver 0 ''m1'' (event ResponseStart ''A''),
       Deliver 1 ''m2'' ((event ResponseToken ''A'')\<lparr>ev_token := Some ''Hi''\<rparr>),
       Deliver 2 ''m3'' (event ResponseStart ''B''),
       Stop,
       Deliver 3 ''m4'' (event ResponseStop ''B''),
       Deliver 4 ''m5'' (event ResponseEnd ''A''),
       Deliver 5 ''m6'' ((event ResponseStatus ''A'')\<lparr>ev_status := Some Completed\<rparr>)]
      (newApp ''c'')))
   \<and> (\<exists>m'. agentMessage (Some ''A'')
          (messages (handleStreamEvent 2 ''m3'' ((event ResponseToken ''A'')\<lparr>ev_token := Some ''x''\<rparr>)
             (run [Deliver 0 ''m1'' (event ResponseStart ''A''),
                   Deliver 1 ''m2'' (event ResponseStop ''A'')] (newApp ''c'')))) = Some m'
        \<and> truthy (isStreaming m') \<and> truthy (finished m') \<and> status m' = Some Streaming)"
proof -
  let ?as = "[Deliver 0 ''m1'' (event ResponseStart ''A''),
       Deliver 1 ''m2'' ((event ResponseToken ''A'')\<lparr>ev_token := Some ''Hi''\<rparr>),
       Deliver 2 ''m3'' (event ResponseStart ''B''),
       Stop,
       Deliver 3 ''m4'' (event ResponseStop ''B''),
       Deliver 4 ''m5'' (event ResponseEnd ''A''),
       Deliver 5 ''m6'' ((event ResponseStatus ''A'')\<lparr>ev_status := Some Completed\<rparr>)]"
  let ?e = "(event ResponseToken ''A'')\<lparr>ev_token := Some ''x''\<rparr>"
  let ?app = "run [Deliver 0 ''m1'' (event ResponseStart ''A''),
                   Deliver 1 ''m2'' (event ResponseStop ''A'')] (newApp ''c'')"
  let ?m = "\<lparr> msg_id = ''A'', role = Agent, content = [], createdAt = 0,
       responseId = Some ''A'', status = Some Stopped, tokens = Some [],
       isStreaming = Some False, finished = Some True, visible = True \<rparr>"
  have o: "orderly ?as (newApp ''c'')" by code_simp
  have c: "ev_conversationId ?e = conversationId ?app" by code_simp
  have t: "setsStreaming ?e" by (simp add: event_def setsStreaming_def)
  have ty: "ev_type ?e = ResponseToken" by (simp add: event_def)
  have r: "ev_responseId ?e = Some ''A''" by (simp add: event_def)
  have m: "agentMessage (ev_responseId ?e) (messages ?app) = Some ?m" by code_simp
  have f: "truthy (finished ?m)" by (simp add: truthy_def)
  note part1 = streaming_flag_consistent[of ?as "''c''" ?e ?app ?m 2 "''m3''", THEN conjunct1]
  note part2 = streaming_flag_consistent[of ?as "''c''" ?e ?app ?m 2 "''m3''", THEN conjunct2]
  have a: "list_all streamingConsistent (messages (run ?as (newApp ''c'')))"
    by (rule mp[OF part1 o])
  have "ev_conversationId ?e = conversationId ?app \<and> setsStreaming ?e
        \<and> agentMessage (ev_responseId ?e) (messages ?app) = Some ?m \<and> truthy (finished ?m)"
    using c t m f by simp
  from mp[OF part2 this] have b: "\<exists>m'. agentMessage (Some ''A'')
          (messages (handleStreamEvent 2 ''m3'' ?e ?app)) = Some m'
        \<and> truthy (isStreaming m') \<and> truthy (finished m') \<and> status m' = Some Streaming"
    unfolding r by (simp add: ty)
  from o a b show ?thesis by simp
qed

section \<open>C5: the celebration event\<close>

text \<open>
  C5, at the failing input. The message of response \<open>A\<close> exists with status \<open>thinking\<close>
  when a \<^verbatim>\<open>response-celebration\<close> event for \<open>A\<close> arrives, without a status or with the status
  \<open>celebrating\<close>: the status of the message stays \<open>thinking\<close>. The \<^verbatim>\<open>switch\<close> of
  \<^verbatim>\<open>handleStreamEvent\<close> has a case for six of the seven event types and none for this one.
\<close>

theorem celebration_leaves_status:
  "map status (messages (run
      [Deliver 0 ''m1'' (event ResponseStart ''A''),
       Deliver 1 ''m2'' (event ResponseCelebration ''A'')] (newApp ''c''))) = [Some Thinking]
   \<and> map status (messages (run
      [Deliver 0 ''m1'' (event ResponseStart ''A''),
       Deliver 1 ''m2'' ((event ResponseCelebration ''A'')\<lparr>ev_status := Some Celebrating\<rparr>)]
      (newApp ''c''))) = [Some Thinking]"
  by code_simp

section \<open>C6: what the dispatcher lets through\<close>

lemma prefix_eventTypeName: "prefix ''response'' (eventTypeName ty)"
  by (cases ty) simp_all

text \<open>
  C6, as stated, fails. The claim lets the dispatcher emit only payloads whose \<open>type\<close> is one
  of the seven event types. The guard of \<^verbatim>\<open>dispatch\<close> is
  \<^verbatim>\<open>payload.type.startsWith('response')\<close>: a payload of the type \<open>response-bogus\<close>, which is
  none of the seven, is emitted.
\<close>

theorem dispatch_counterexample:
  "dispatch (JObj [(''type'', JStr ''response-bogus''), (''conversationId'', JStr ''c'')])
     = Inr (Some (JObj [(''type'', JStr ''response-bogus''), (''conversationId'', JStr ''c'')]))"
  by (simp add: dispatch_def)

text \<open>
  C6, amended. The dispatcher emits a payload exactly when the payload is an object with a
  \<open>type\<close> field whose value is a string that starts with \<open>response\<close>, and what it emits is
  the payload itself. So every payload with one of the seven event types is emitted; a
  \<^verbatim>\<open>null\<close> payload, an object without a \<open>type\<close> field, and an object whose \<open>type\<close> is not
  a string or is a string that does not start with \<open>response\<close> are rejected: no event, no
  error.
\<close>

theorem dispatch_by_prefix:
  "(dispatch payload = Inr (Some emitted)) =
     (emitted = payload \<and>
      (\<exists>members t. payload = JObj members \<and> map_of members ''type'' = Some (JStr t)
          \<and> prefix ''response'' t))
   \<and> (map_of members ''type'' = Some (JStr (eventTypeName ty)) \<longrightarrow>
        dispatch (JObj members) = Inr (Some (JObj members)))
   \<and> dispatch JNull = Inr None
   \<and> (map_of members ''type'' = None \<longrightarrow> dispatch (JObj members) = Inr None)
   \<and> (map_of members ''type'' = Some v \<and> (\<forall>t. v = JStr t \<longrightarrow> \<not> prefix ''response'' t) \<longrightarrow>
        dispatch (JObj members) = Inr None)"
proof (intro conjI impI)
  show "(dispatch payload = Inr (Some emitted)) =
     (emitted = payload \<and>
      (\<exists>members t. payload = JObj members \<and> map_of members ''type'' = Some (JStr t)
          \<and> prefix ''response'' t))"
    by (cases payload) (auto simp: dispatch_def split: option.splits json.splits)
  show "dispatch (JObj members) = Inr (Some (JObj members))"
    if "map_of members ''type'' = Some (JStr (eventTypeName ty))"
    using that by (simp add: dispatch_def prefix_eventTypeName)
  show "dispatch JNull = Inr None" by (simp add: dispatch_def)
  show "dispatch (JObj members) = Inr None" if "map_of members ''type'' = None"
    using that by (simp add: dispatch_def)
  show "dispatch (JObj members) = Inr None"
    if "map_of members ''type'' = Some v \<and> (\<forall>t. v = JStr t \<longrightarrow> \<not> prefix ''response'' t)"
    using that by (cases v) (auto simp: dispatch_def)
qed

text \<open>
  A token event is emitted; a payload without \<open>type\<close>, an outbound command type and a
  numeric \<open>type\<close> are rejected.
\<close>

theorem dispatch_by_prefix_witness:
  "dispatch (JObj [(''type'', JStr ''response-token''), (''token'', JStr ''Hi'')])
     = Inr (Some (JObj [(''type'', JStr ''response-token''), (''token'', JStr ''Hi'')]))
   \<and> dispatch (JObj [(''token'', JStr ''Hi'')]) = Inr None
   \<and> dispatch (JObj [(''type'', JStr ''user-message'')]) = Inr None
   \<and> dispatch (JObj [(''type'', JNum 7)]) = Inr None"
proof (intro conjI)
  have a: "map_of [(''type'', JStr ''response-token''), (''token'', JStr ''Hi'')] ''type''
      = Some (JStr (eventTypeName ResponseToken))" by simp
  from dispatch_by_prefix[of _ _ "[(''type'', JStr ''response-token''), (''token'', JStr ''Hi'')]" ResponseToken] a
  show "dispatch (JObj [(''type'', JStr ''response-token''), (''token'', JStr ''Hi'')])
     = Inr (Some (JObj [(''type'', JStr ''response-token''), (''token'', JStr ''Hi'')]))"
    by blast
  have b: "map_of [(''token'', JStr ''Hi'')] ''type'' = None" by simp
  from dispatch_by_prefix[of _ _ "[(''token'', JStr ''Hi'')]"] b
  show "dispatch (JObj [(''token'', JStr ''Hi'')]) = Inr None" by blast
  have c: "map_of [(''type'', JStr ''user-message'')] ''type'' = Some (JStr ''user-message'')
      \<and> (\<forall>t. JStr ''user-message'' = JStr t \<longrightarrow> \<not> prefix ''response'' t)" by simp
  from dispatch_by_prefix[of _ _ "[(''type'', JStr ''user-message'')]" _ "JStr ''user-message''"] c
  show "dispatch (JObj [(''type'', JStr ''user-message'')]) = Inr None" by blast
  have d: "map_of [(''type'', JNum 7)] ''type'' = Some (JNum 7)
      \<and> (\<forall>t. JNum 7 = JStr t \<longrightarrow> \<not> prefix ''response'' t)" by simp
  from dispatch_by_prefix[of _ _ "[(''type'', JNum 7)]" _ "JNum 7"] d
  show "dispatch (JObj [(''type'', JNum 7)]) = Inr None" by blast
qed

section \<open>C7: a new chat drops the events of the old conversation\<close>

lemma stopStreaming_conversationId:
  "conversationId (stopStreaming app) = conversationId app"
  by (simp add: stopStreaming_def Let_def split: option.splits)

lemma act_conversationId:
  "a \<noteq> NewChat old \<Longrightarrow> conversationId app \<noteq> old \<Longrightarrow> conversationId (act a app) \<noteq> old"
  by (cases a)
    (auto simp: handleStreamEvent_conversationId stopStreaming_conversationId
      submitPrompt_def startNewChat_def)

lemma run_conversationId:
  "NewChat old \<notin> set as \<Longrightarrow> conversationId app \<noteq> old \<Longrightarrow>
   conversationId (run as app) \<noteq> old"
proof (induction as arbitrary: app)
  case Nil
  then show ?case by simp
next
  case (Cons a as)
  from Cons.prems have "a \<noteq> NewChat old" "NewChat old \<notin> set as" by auto
  with Cons.prems(2) Cons.IH[of "act a app"] show ?case
    by (simp add: act_conversationId)
qed

lemma run_without_old:
  "NewChat old \<notin> set as \<Longrightarrow> conversationId app \<noteq> old \<Longrightarrow>
   run as app = run (filter (\<lambda>a. \<not> fromConversation old a) as) app"
proof (induction as arbitrary: app)
  case Nil
  then show ?case by simp
next
  case (Cons a as)
  from Cons.prems have a: "a \<noteq> NewChat old" "NewChat old \<notin> set as" by auto
  show ?case
  proof (cases "fromConversation old a")
    case True
    then obtain now fresh e where d: "a = Deliver now fresh e" "ev_conversationId e = old"
      by (cases a) auto
    with Cons.prems(2) have "act a app = app"
      by (simp add: handleStreamEvent_other_conversation)
    with True a(2) Cons.prems(2) Cons.IH[of app] show ?thesis by simp
  next
    case False
    have "conversationId (act a app) \<noteq> old"
      using a(1) Cons.prems(2) by (rule act_conversationId)
    with False a(2) Cons.IH[of "act a app"] show ?thesis by simp
  qed
qed

text \<open>
  C7, as stated, fails. \<^verbatim>\<open>createConversationId\<close> does not look at the id in use: without
  \<^verbatim>\<open>crypto.randomUUID\<close> it returns \<^verbatim>\<open>conversation-\<close> followed by \<^verbatim>\<open>Date.now()\<close>, the same id
  within one millisecond. The response \<open>A\<close> of the conversation \<open>c\<close> is streaming when a new
  chat draws \<open>c\<close> again; the list is emptied, and a late token of \<open>A\<close>, which carries the old
  conversation id, is applied: it creates a message in the new chat.
\<close>

theorem new_chat_counterexample:
  "map (\<lambda>m. (responseId m, content m)) (messages (run
      [Deliver 0 ''m1'' (event ResponseStart ''A''),
       NewChat ''c'',
       Deliver 1 ''m2'' ((event ResponseToken ''A'')\<lparr>ev_token := Some ''x''\<rparr>)]
      (newApp ''c''))) = [(Some ''A'', ''x'')]"
  by code_simp

text \<open>
  C7, amended. \<^verbatim>\<open>startNewChat\<close> sets the conversation id to the id that
  \<^verbatim>\<open>createConversationId\<close> draws and empties the message list. If the id drawn differs from
  the old one, then after any events and user actions \<open>as\<close> in which no later new chat draws
  the old id again, an event that carries the old conversation id leaves the whole state
  as it is; and such events are not kept for later: the run over \<open>as\<close> ends in the state of
  the run over \<open>as\<close> without the deliveries that carry the old id.
\<close>

theorem new_chat_drops_old_events:
  "conversationId (startNewChat freshConversationId app) = freshConversationId
   \<and> messages (startNewChat freshConversationId app) = []
   \<and> (freshConversationId \<noteq> conversationId app \<and> NewChat (conversationId app) \<notin> set as
      \<longrightarrow> (ev_conversationId e = conversationId app \<longrightarrow>
             handleStreamEvent now fresh e (run as (startNewChat freshConversationId app))
             = run as (startNewChat freshConversationId app))
        \<and> run as (startNewChat freshConversationId app)
           = run (filter (\<lambda>a. \<not> fromConversation (conversationId app) a) as)
               (startNewChat freshConversationId app))"
proof (intro conjI impI)
  let ?s = "startNewChat freshConversationId app"
  show "conversationId ?s = freshConversationId" "messages ?s = []"
    by (simp_all add: startNewChat_def)
  assume h: "freshConversationId \<noteq> conversationId app \<and> NewChat (conversationId app) \<notin> set as"
  then have c: "conversationId ?s \<noteq> conversationId app" and n: "NewChat (conversationId app) \<notin> set as"
    by (simp_all add: startNewChat_def)
  show "handleStreamEvent now fresh e (run as ?s) = run as ?s"
    if "ev_conversationId e = conversationId app"
    using that run_conversationId[OF n c] by (intro handleStreamEvent_other_conversation) simp
  show "run as ?s = run (filter (\<lambda>a. \<not> fromConversation (conversationId app) a) as) ?s"
    using n c by (rule run_without_old)
qed

text \<open>
  The conversation \<open>c\<close> has a streaming response when the chat \<open>d\<close> is started. The list
  is emptied; the first response of \<open>d\<close> starts, the user sends a prompt and presses stop;
  a late token of \<open>c\<close> then changes nothing.
\<close>

theorem new_chat_drops_old_events_witness:
  "messages (startNewChat ''d''
       (run [Deliver 0 ''m1'' (event ResponseStart ''A'')] (newApp ''c''))) = []
   \<and> handleStreamEvent 4 ''m5'' ((event ResponseToken ''A'')\<lparr>ev_token := Some ''Hi''\<rparr>)
       (run [Deliver 1 ''m2'' ((event ResponseStart ''B'')\<lparr>ev_conversationId := ''d''\<rparr>),
             Submit 2 ''m3'' ''hello'',
             Stop]
          (startNewChat ''d''
             (run [Deliver 0 ''m1'' (event ResponseStart ''A'')] (newApp ''c''))))
     = run [Deliver 1 ''m2'' ((event ResponseStart ''B'')\<lparr>ev_conversationId := ''d''\<rparr>),
            Submit 2 ''m3'' ''hello'',
            Stop]
          (startNewChat ''d''
             (run [Deliver 0 ''m1'' (event ResponseStart ''A'')] (newApp ''c'')))"
proof -
  let ?app = "run [Deliver 0 ''m1'' (event ResponseStart ''A'')] (newApp ''c'')"
  let ?as = "[Deliver 1 ''m2'' ((event ResponseStart ''B'')\<lparr>ev_conversationId := ''d''\<rparr>),
             Submit 2 ''m3'' ''hello'',
             Stop]"
  let ?e = "(event ResponseToken ''A'')\<lparr>ev_token := Some ''Hi''\<rparr>"
  have c: "conversationId ?app = ''c''"
    by (simp add: handleStreamEvent_conversationId newApp_def)
  have h: "''d'' \<noteq> conversationId ?app \<and> NewChat (conversationId ?app) \<notin> set ?as"
    unfolding c by simp
  have e: "ev_conversationId ?e = conversationId ?app"
    unfolding c by (simp add: event_def)
  note t = new_chat_drops_old_events[of "''d''" ?app ?as ?e 4 "''m5''"]
  note empty = t[THEN conjunct2, THEN conjunct1]
  note dropped = mp[OF mp[OF t[THEN conjunct2, THEN conjunct2] h, THEN conjunct1] e]
  from empty dropped show ?thesis by (rule conjI)
qed

section \<open>C8: the same status event twice\<close>

lemma nextMessage_status_twice:
  assumes "ev_type e = ResponseStatus"
  shows "nextMessage e (nextMessage e t) = nextMessage e t"
    and "nextMessage e ((nextMessage e t)\<lparr>visible := True\<rparr>) = (nextMessage e t)\<lparr>visible := True\<rparr>"
  using assms by (auto simp: nextMessage_def split: option.splits)

text \<open>
  C8, as stated, fails. Four responses are started; \<open>B\<close> and \<open>C\<close> end while hidden, then
  \<open>A\<close> ends, which shows \<open>B\<close>. A \<^verbatim>\<open>response-status\<close> event for the finished \<open>A\<close> runs the
  release again and shows \<open>C\<close>; the same event once more shows \<open>D\<close>. One delivery leaves
  \<open>D\<close> hidden, two deliveries show it.
\<close>

theorem status_event_twice_counterexample:
  "map visible (messages (run
      [Deliver 0 ''m1'' (event ResponseStart ''A''), Deliver 1 ''m2'' (event ResponseStart ''B''),
       Deliver 2 ''m3'' (event ResponseStart ''C''), Deliver 3 ''m4'' (event ResponseStart ''D''),
       Deliver 4 ''m5'' (event ResponseEnd ''B''), Deliver 5 ''m6'' (event ResponseEnd ''C''),
       Deliver 6 ''m7'' (event ResponseEnd ''A''),
       Deliver 7 ''m8'' ((event ResponseStatus ''A'')\<lparr>ev_status := Some Completed\<rparr>)]
      (newApp ''c''))) = [True, True, True, False]
   \<and> map visible (messages (run
      [Deliver 0 ''m1'' (event ResponseStart ''A''), Deliver 1 ''m2'' (event ResponseStart ''B''),
       Deliver 2 ''m3'' (event ResponseStart ''C''), Deliver 3 ''m4'' (event ResponseStart ''D''),
       Deliver 4 ''m5'' (event ResponseEnd ''B''), Deliver 5 ''m6'' (event ResponseEnd ''C''),
       Deliver 6 ''m7'' (event ResponseEnd ''A''),
       Deliver 7 ''m8'' ((event ResponseStatus ''A'')\<lparr>ev_status := Some Completed\<rparr>),
       Deliver 7 ''m8'' ((event ResponseStatus ''A'')\<lparr>ev_status := Some Completed\<rparr>)]
      (newApp ''c''))) = [True, True, True, True]"
  by code_simp

text \<open>
  C8, amended. Delivering the same \<^verbatim>\<open>response-status\<close> event a second time rewrites its
  message with the values it already has. The message list after two deliveries is the
  list after one delivery if the event is of another conversation or its message is not
  finished; if its message is finished, the second delivery runs the release of hidden
  messages once more on the list after one delivery, and nothing else.
\<close>

theorem status_event_twice:
  assumes t: "ev_type e = ResponseStatus"
  shows "messages (handleStreamEvent now2 fresh2 e (handleStreamEvent now1 fresh1 e app)) =
     (if ev_conversationId e = conversationId app
         \<and> (case agentMessage (ev_responseId e) (messages (handleStreamEvent now1 fresh1 e app)) of
              None \<Rightarrow> False | Some m \<Rightarrow> truthy (finished m))
      then releaseQueuedAgentResponses (messages (handleStreamEvent now1 fresh1 e app))
      else messages (handleStreamEvent now1 fresh1 e app))"
proof (cases "ev_conversationId e = conversationId app")
  case False
  then show ?thesis by (simp add: handleStreamEvent_def)
next
  case True
  let ?app1 = "handleStreamEvent now1 fresh1 e app"
  let ?m1 = "messages ?app1"
  obtain u i where ui: "ensureAgentMessage now1 fresh1 (messages app) e = (u, i)"
    by (cases "ensureAgentMessage now1 fresh1 (messages app) e")
  note tg = handleStreamEvent_target[OF True ui]
  have c1: "ev_conversationId e = conversationId ?app1"
    using True by (simp add: handleStreamEvent_conversationId)
  from tg(3) have fixd: "nextMessage e (?m1 ! i) = ?m1 ! i"
    using nextMessage_status_twice[OF t, of "u ! i"] by auto
  have "messages (handleStreamEvent now2 fresh2 e ?app1)
      = (if truthy (finished (?m1 ! i)) then releaseQueuedAgentResponses ?m1 else ?m1)"
    using handleStreamEvent_existing[OF c1 tg(1), of now2 fresh2] fixd by simp
  moreover have "agentMessage (ev_responseId e) ?m1 = Some (?m1 ! i)"
    using tg(1) by (simp add: agentMessage_def)
  ultimately show ?thesis using True by simp
qed

text \<open>
  The response \<open>A\<close> is streaming, not finished: its status event delivered twice leaves
  the list that one delivery leaves.
\<close>

theorem status_event_twice_witness:
  "messages (handleStreamEvent 2 ''m3'' ((event ResponseStatus ''A'')\<lparr>ev_status := Some Streaming\<rparr>)
      (handleStreamEvent 1 ''m2'' ((event ResponseStatus ''A'')\<lparr>ev_status := Some Streaming\<rparr>)
         (run [Deliver 0 ''m1'' (event ResponseStart ''A'')] (newApp ''c''))))
   = messages (handleStreamEvent 1 ''m2'' ((event ResponseStatus ''A'')\<lparr>ev_status := Some Streaming\<rparr>)
         (run [Deliver 0 ''m1'' (event ResponseStart ''A'')] (newApp ''c'')))"
proof -
  let ?e = "(event ResponseStatus ''A'')\<lparr>ev_status := Some Streaming\<rparr>"
  let ?app = "run [Deliver 0 ''m1'' (event ResponseStart ''A'')] (newApp ''c'')"
  have t: "ev_type ?e = ResponseStatus" by (simp add: event_def)
  have unfinished: "(case agentMessage (ev_responseId ?e) (messages (handleStreamEvent 1 ''m2'' ?e ?app)) of
      None \<Rightarrow> False | Some m \<Rightarrow> truthy (finished m)) = False"
    by code_simp
  from status_event_twice[OF t, of 2 "''m3''" 1 "''m2''" ?app] unfinished
  show ?thesis by simp
qed

section \<open>C9: a reconnect after a manual disconnect\<close>

text \<open>
  The close path is guarded. Whatever the state of the service, \<^verbatim>\<open>disconnect()\<close> leaves
  no timer pending and no socket, with \<open>manualClose\<close> set; a timer that was pending does not
  fire. The close notification that follows sets the status to \<open>disconnected\<close>, schedules
  nothing, makes no connection attempt and clears the flag. The flag is spent by that one
  close: the next close schedules a reconnect (in a browser).
\<close>

lemma close_after_disconnect:
  "reconnectTimer (disconnect s) = False
   \<and> socket (disconnect s) = None
   \<and> manualClose (disconnect s) = True
   \<and> reconnectTimerFires env (disconnect s) = disconnect s
   \<and> reconnectTimer (handleDisconnect env (disconnect s)) = False
   \<and> manualClose (handleDisconnect env (disconnect s)) = False
   \<and> connectionState (handleDisconnect env (disconnect s)) = Disconnected
   \<and> created (handleDisconnect env (disconnect s)) = created s
   \<and> reconnectTimerFires env (handleDisconnect env (disconnect s))
       = handleDisconnect env (disconnect s)
   \<and> reconnectTimer (handleDisconnect env (handleDisconnect env (disconnect s)))
       = platformBrowser env"
  by (simp add: disconnect_def disposeSocket_def handleDisconnect_def reconnectTimerFires_def
      scheduleReconnect_def)

text \<open>
  C9, at the failing input. The service is connected on its first socket when
  \<^verbatim>\<open>disconnect()\<close> is called, and the socket does not close cleanly: the close is notified
  (\<^verbatim>\<open>handleDisconnect\<close>) and reported as an error too (\<^verbatim>\<open>handleError\<close>), in either order.
  \<^verbatim>\<open>handleError\<close> does not look at \<open>manualClose\<close>: it schedules a reconnect, and when the delay
  has passed the timer connects again, on a second socket. \<^verbatim>\<open>handleDisconnect\<close>, the
  sibling path, has the guard.
\<close>

theorem error_after_disconnect_reconnects:
  "reconnectTimer
     (handleError \<lparr> agentSocketUrl = ''ws://agent'', platformBrowser = True \<rparr>
       (handleDisconnect \<lparr> agentSocketUrl = ''ws://agent'', platformBrowser = True \<rparr>
         (disconnect
           \<lparr> socket = Some 0, connectionState = Connected, reconnectTimer = False,
             manualClose = False, created = 1 \<rparr>))) = True
   \<and> reconnectTimerFires \<lparr> agentSocketUrl = ''ws://agent'', platformBrowser = True \<rparr>
       (handleError \<lparr> agentSocketUrl = ''ws://agent'', platformBrowser = True \<rparr>
         (handleDisconnect \<lparr> agentSocketUrl = ''ws://agent'', platformBrowser = True \<rparr>
           (disconnect
             \<lparr> socket = Some 0, connectionState = Connected, reconnectTimer = False,
               manualClose = False, created = 1 \<rparr>)))
     = \<lparr> socket = Some 1, connectionState = Connecting, reconnectTimer = False,
         manualClose = False, created = 2 \<rparr>
   \<and> reconnectTimerFires \<lparr> agentSocketUrl = ''ws://agent'', platformBrowser = True \<rparr>
       (handleDisconnect \<lparr> agentSocketUrl = ''ws://agent'', platformBrowser = True \<rparr>
         (handleError \<lparr> agentSocketUrl = ''ws://agent'', platformBrowser = True \<rparr>
           (disconnect
             \<lparr> socket = Some 0, connectionState = Connected, reconnectTimer = False,
               manualClose = False, created = 1 \<rparr>)))
     = \<lparr> socket = Some 1, connectionState = Connecting, reconnectTimer = False,
         manualClose = False, created = 2 \<rparr>"
  by (simp add: disconnect_def disposeSocket_def handleDisconnect_def handleError_def
      reconnectTimerFires_def scheduleReconnect_def connect_def)

section \<open>C10: the stop button\<close>

text \<open>
  C10. Let the message ids be distinct, as \<^verbatim>\<open>createMessageId\<close> and the response ids of the
  backend make them. If the agent message at index \<open>i\<close> is streaming, no agent message behind
  it is, and its response id is not empty, then \<^verbatim>\<open>stopStreaming\<close> hands one stop command
  for it to the service and, in the same call, gives it the status \<open>stopped\<close>,
  \<open>isStreaming = false\<close> and \<open>finished = true\<close> and runs the release of hidden messages
  on the list; no event from the backend takes part. If no agent message is streaming, or
  the latest one that is has no response id (none or the empty string), the whole state,
  the log of commands too, stays as it is.
\<close>

theorem stop_marks_latest_streaming:
  assumes d: "distinct (map msg_id (messages app))"
  shows
   "(i < length (messages app)
       \<and> role (messages app ! i) = Agent \<and> truthy (isStreaming (messages app ! i))
       \<and> (\<forall>j. i < j \<and> j < length (messages app) \<longrightarrow>
              \<not> (role (messages app ! j) = Agent \<and> truthy (isStreaming (messages app ! j))))
       \<and> nonEmptyId (responseId (messages app ! i))
      \<longrightarrow> messages (stopStreaming app)
            = releaseQueuedAgentResponses ((messages app)[i := (messages app ! i)
                \<lparr>status := Some Stopped, isStreaming := Some False, finished := Some True\<rparr>])
          \<and> status (messages (stopStreaming app) ! i) = Some Stopped
          \<and> isStreaming (messages (stopStreaming app) ! i) = Some False
          \<and> finished (messages (stopStreaming app) ! i) = Some True
          \<and> sent (stopStreaming app) = sent app
              @ [StopResponse (conversationId app) (responseId (messages app ! i))
                   (Some ''user-request'')])
    \<and> ((\<forall>m\<in>set (messages app). \<not> (role m = Agent \<and> truthy (isStreaming m)))
          \<longrightarrow> stopStreaming app = app)
    \<and> (i < length (messages app)
       \<and> role (messages app ! i) = Agent \<and> truthy (isStreaming (messages app ! i))
       \<and> (\<forall>j. i < j \<and> j < length (messages app) \<longrightarrow>
              \<not> (role (messages app ! j) = Agent \<and> truthy (isStreaming (messages app ! j))))
       \<and> \<not> nonEmptyId (responseId (messages app ! i))
      \<longrightarrow> stopStreaming app = app)"
proof -
  let ?ms = "messages app"
  let ?P = "\<lambda>m. role m = Agent \<and> truthy (isStreaming m)"
  let ?upd = "?ms[i := (?ms ! i)
                \<lparr>status := Some Stopped, isStreaming := Some False, finished := Some True\<rparr>]"
  have none: "stopStreaming app = app" if "\<forall>m\<in>set ?ms. \<not> ?P m"
  proof -
    from that have "List.find ?P (rev ?ms) = None" by (auto simp: find_None_iff)
    then show ?thesis by (simp add: stopStreaming_def)
  qed
  have noId: "stopStreaming app = app"
    if a: "i < length ?ms \<and> ?P (?ms ! i)
       \<and> (\<forall>j. i < j \<and> j < length ?ms \<longrightarrow> \<not> ?P (?ms ! j))
       \<and> \<not> nonEmptyId (responseId (?ms ! i))"
  proof -
    from a have "List.find ?P (rev ?ms) = Some (?ms ! i)"
      by (intro find_rev_latest) auto
    with a show ?thesis by (simp add: stopStreaming_def)
  qed
  have stop: "messages (stopStreaming app) = releaseQueuedAgentResponses ?upd
      \<and> status (messages (stopStreaming app) ! i) = Some Stopped
      \<and> isStreaming (messages (stopStreaming app) ! i) = Some False
      \<and> finished (messages (stopStreaming app) ! i) = Some True
      \<and> sent (stopStreaming app) = sent app
          @ [StopResponse (conversationId app) (responseId (?ms ! i)) (Some ''user-request'')]"
    if a: "i < length ?ms \<and> ?P (?ms ! i)
       \<and> (\<forall>j. i < j \<and> j < length ?ms \<longrightarrow> \<not> ?P (?ms ! j))
       \<and> nonEmptyId (responseId (?ms ! i))"
  proof -
    from a have f: "List.find ?P (rev ?ms) = Some (?ms ! i)"
      by (intro find_rev_latest) auto
    from a have ix: "findIndex (\<lambda>m. msg_id m = msg_id (?ms ! i)) ?ms = Some i"
      by (intro findIndex_distinct[OF d]) simp
    from a f ix have m: "messages (stopStreaming app) = releaseQueuedAgentResponses ?upd"
      by (simp add: stopStreaming_def Let_def)
    from a have il: "i < length ?upd" by simp
    have fl: "status (messages (stopStreaming app) ! i) = Some Stopped"
      "isStreaming (messages (stopStreaming app) ! i) = Some False"
      "finished (messages (stopStreaming app) ! i) = Some True"
      unfolding m using a by (simp_all add: release_fields[OF il])
    from a f ix have "sent (stopStreaming app) = sent app
          @ [StopResponse (conversationId app) (responseId (?ms ! i)) (Some ''user-request'')]"
      by (simp add: stopStreaming_def Let_def)
    with m fl show ?thesis by simp
  qed
  show ?thesis
    by (rule conjI[OF impI[OF stop] conjI[OF impI[OF none] impI[OF noId]]]) blast+
qed

text \<open>
  Response \<open>A\<close> is streaming and response \<open>B\<close> waits hidden with the status \<open>queued\<close>.
  Stopping stops \<open>A\<close>, shows \<open>B\<close> and sends one stop command for \<open>A\<close>.
\<close>

theorem stop_marks_latest_streaming_witness:
  "distinct (map msg_id (messages (run
      [Deliver 0 ''m1'' (event ResponseStart ''A''),
       Deliver 1 ''m2'' ((event ResponseStatus ''B'')\<lparr>ev_status := Some Queued\<rparr>)] (newApp ''c''))))
   \<and> map (\<lambda>m. (status m, isStreaming m, finished m, visible m)) (messages (stopStreaming (run
      [Deliver 0 ''m1'' (event ResponseStart ''A''),
       Deliver 1 ''m2'' ((event ResponseStatus ''B'')\<lparr>ev_status := Some Queued\<rparr>)] (newApp ''c''))))
     = [(Some Stopped, Some False, Some True, True), (Some Queued, Some False, Some False, True)]
   \<and> sent (stopStreaming (run
      [Deliver 0 ''m1'' (event ResponseStart ''A''),
       Deliver 1 ''m2'' ((event ResponseStatus ''B'')\<lparr>ev_status := Some Queued\<rparr>)] (newApp ''c'')))
     = [NewSession ''c'', StopResponse ''c'' (Some ''A'') (Some ''user-request'')]"
proof -
  let ?app = "run
      [Deliver 0 ''m1'' (event ResponseStart ''A''),
       Deliver 1 ''m2'' ((event ResponseStatus ''B'')\<lparr>ev_status := Some Queued\<rparr>)] (newApp ''c'')"
  have ms: "messages ?app =
     [\<lparr> msg_id = ''A'', role = Agent, content = [], createdAt = 0, responseId = Some ''A'',
         status = Some Thinking, tokens = Some [], isStreaming = Some True,
         finished = Some False, visible = True \<rparr>,
      \<lparr> msg_id = ''B'', role = Agent, content = [], createdAt = 1, responseId = Some ''B'',
         status = Some Queued, tokens = Some [], isStreaming = Some False,
         finished = Some False, visible = False \<rparr>]"
    by code_simp
  have cs: "conversationId ?app = ''c''" "sent ?app = [NewSession ''c'']"
    by code_simp+
  have d: "distinct (map msg_id (messages ?app))" unfolding ms by simp
  have h: "0 < length (messages ?app)
       \<and> role (messages ?app ! 0) = Agent \<and> truthy (isStreaming (messages ?app ! 0))
       \<and> (\<forall>j. 0 < j \<and> j < length (messages ?app) \<longrightarrow>
              \<not> (role (messages ?app ! j) = Agent \<and> truthy (isStreaming (messages ?app ! j))))
       \<and> nonEmptyId (responseId (messages ?app ! 0))"
    unfolding ms by (auto simp: truthy_def nonEmptyId_def less_Suc_eq)
  from stop_marks_latest_streaming[OF d, of 0] h
  have r: "messages (stopStreaming ?app)
            = releaseQueuedAgentResponses ((messages ?app)[0 := (messages ?app ! 0)
                \<lparr>status := Some Stopped, isStreaming := Some False, finished := Some True\<rparr>])"
    and s: "sent (stopStreaming ?app) = sent ?app
              @ [StopResponse (conversationId ?app) (responseId (messages ?app ! 0))
                   (Some ''user-request'')]"
    by blast+
  have "map (\<lambda>m. (status m, isStreaming m, finished m, visible m)) (messages (stopStreaming ?app))
     = [(Some Stopped, Some False, Some True, True), (Some Queued, Some False, Some False, True)]"
    unfolding r ms by (simp add: releaseQueuedAgentResponses_def truthy_def)
  moreover have "sent (stopStreaming ?app)
     = [NewSession ''c'', StopResponse ''c'' (Some ''A'') (Some ''user-request'')]"
    unfolding s cs ms by simp
  ultimately show ?thesis using d by simp
qed

end
